theory Spec2Isabelle
  imports Complex_Main "HOL-Library.List_Lexorder"
begin

section \<open>Characters and strings\<close>

text \<open>
  Python's \<open>str\<close> is a sequence of Unicode code points. A text is modelled as a
  \<open>string\<close> whose characters are the code points below 256 (Latin-1), and the character
  classes below are Python's, restricted to that range: \<open>\s\<close> and \<open>str.strip\<close> use
  \<open>str.isspace\<close>, \<open>\d\<close> is the decimal digits (below 256 only \<open>0\<close> to \<open>9\<close>), and
  \<open>str.lower\<close> maps \<open>A\<close> to \<open>Z\<close> and the upper-case letters \<open>0xC0\<close> to \<open>0xDE\<close>
  (without the multiplication sign \<open>0xD7\<close>) 32 places up. Code points from 256 on, among
  them the bullet U+2022 of \<open>sub_step_re\<close>, are outside the type.
\<close>

abbreviation NL :: char where
  "NL \<equiv> CHR 0x0A"

definition isspace :: "char \<Rightarrow> bool" where
  "isspace c = (c \<in> set [CHR 0x09, CHR 0x0A, CHR 0x0B, CHR 0x0C, CHR 0x0D,
                         CHR 0x1C, CHR 0x1D, CHR 0x1E, CHR 0x1F, CHR 0x20,
                         CHR 0x85, CHR 0xA0])"

definition isdigit :: "char \<Rightarrow> bool" where
  "isdigit c = (c \<in> set ''0123456789'')"

definition digit_value :: "char \<Rightarrow> nat" where
  "digit_value c = of_char c - 48"

text \<open>\<open>int(s)\<close> on a nonempty string of decimal digits (Python's integers are unbounded).\<close>

definition int_of_digits :: "string \<Rightarrow> nat" where
  "int_of_digits ds = foldl (\<lambda>a c. 10 * a + digit_value c) 0 ds"

definition lower_char :: "char \<Rightarrow> char" where
  "lower_char c =
     (let n = (of_char c :: nat)
      in if (65 \<le> n \<and> n \<le> 90) \<or> (192 \<le> n \<and> n \<le> 222 \<and> n \<noteq> 215)
         then char_of (n + 32) else c)"

definition lower :: "string \<Rightarrow> string" where
  "lower s = map lower_char s"

text \<open>\<open>text.strip()\<close>: leading and trailing whitespace removed.\<close>

definition strip :: "string \<Rightarrow> string" where
  "strip s = rev (dropWhile isspace (rev (dropWhile isspace s)))"

text \<open>
  \<open>text.split('\n')\<close>: the pieces between newlines; the result is never empty
  (\<open>''.split('\n') == ['']\<close>), so the \<open>[]\<close> branch of the case below is never taken.
\<close>

fun split_nl :: "string \<Rightarrow> string list" where
  "split_nl [] = [[]]"
| "split_nl (c # cs) =
     (if c = NL then [] # split_nl cs
      else (case split_nl cs of [] \<Rightarrow> [[c]] | l # ls \<Rightarrow> (c # l) # ls))"

text \<open>\<open>keyword in line\<close>: the keyword occurs as a contiguous substring.\<close>

fun starts_with :: "string \<Rightarrow> string \<Rightarrow> bool" where
  "starts_with [] s = True"
| "starts_with (k # ks) [] = False"
| "starts_with (k # ks) (c # cs) = (k = c \<and> starts_with ks cs)"

fun contains :: "string \<Rightarrow> string \<Rightarrow> bool" where
  "contains kw [] = (kw = [])"
| "contains kw (c # cs) = (starts_with kw (c # cs) \<or> contains kw cs)"

section \<open>Step Structural Parser (str\_wfs.py, analyze\_workflow)\<close>

definition DEFINITIVE_INTERVENTION_KEYWORDS :: "string list" where
  "DEFINITIVE_INTERVENTION_KEYWORDS =
     [''surgery'', ''surgical'', ''transplant'', ''radiation'', ''dialysis'',
      ''fundoplication'', ''replacement'', ''ablation'', ''resection'', ''cut'',
      ''operative'', ''implant'', ''neuro'', ''graft'', ''laser'', ''artery'', ''steroids'']"

text \<open>
  \<open>major_step_re = ^\s*(\d+)\s*[\.\)]\s*\<close>, matched at the start of the line. Whitespace
  and digits are disjoint classes, so the greedy match is the only one: the whitespace
  run, the whole digit run (not empty), the whitespace run, then \<open>.\<close> or \<open>)\<close>. The result
  is \<open>int(match.group(1))\<close>, or \<open>None\<close> when the line does not match.
\<close>

definition major_step_match :: "string \<Rightarrow> nat option" where
  "major_step_match line =
     (let r1 = dropWhile isspace line;
          ds = takeWhile isdigit r1;
          r2 = dropWhile isspace (dropWhile isdigit r1)
      in if ds \<noteq> [] \<and> (case r2 of [] \<Rightarrow> False | c # _ \<Rightarrow> c = CHR ''.'' \<or> c = CHR '')'')
         then Some (int_of_digits ds) else None)"

text \<open>\<open>sub_step_re = ^\s*[-*\<bullet>]\s*\<close> (the bullet is not a character of the model).\<close>

definition sub_step_match :: "string \<Rightarrow> bool" where
  "sub_step_match line =
     (case dropWhile isspace line of [] \<Rightarrow> False | c # _ \<Rightarrow> c = CHR ''-'' \<or> c = CHR ''*'')"

text \<open>\<open>any(keyword in lower_line for keyword in DEFINITIVE_INTERVENTION_KEYWORDS)\<close>\<close>

definition has_keyword :: "string \<Rightarrow> bool" where
  "has_keyword line =
     list_ex (\<lambda>keyword. contains keyword (lower line)) DEFINITIVE_INTERVENTION_KEYWORDS"

record parser_state =
  major_steps :: nat
  sub_steps :: nat
  intervention_step_position :: "nat option"
  current_major_step :: nat

definition initial_state :: parser_state where
  "initial_state =
     \<lparr>major_steps = 0, sub_steps = 0, intervention_step_position = None,
      current_major_step = 0\<rparr>"

text \<open>The three parts of the loop body, in the order of the source.\<close>

definition count_major :: "string \<Rightarrow> parser_state \<Rightarrow> parser_state" where
  "count_major line s =
     (case major_step_match line of
        Some n \<Rightarrow> s\<lparr>major_steps := major_steps s + 1, current_major_step := n\<rparr>
      | None \<Rightarrow> s)"

definition count_sub :: "string \<Rightarrow> parser_state \<Rightarrow> parser_state" where
  "count_sub line s =
     (if sub_step_match line then s\<lparr>sub_steps := sub_steps s + 1\<rparr> else s)"

definition find_intervention :: "string \<Rightarrow> parser_state \<Rightarrow> parser_state" where
  "find_intervention line s =
     (if intervention_step_position s = None then
        (if has_keyword line then
           (if current_major_step s > 0
              then s\<lparr>intervention_step_position := Some (current_major_step s)\<rparr>
            else if major_steps s > 0
              then s\<lparr>intervention_step_position := Some 1\<rparr>
            else s)
         else s)
      else s)"

definition scan_line :: "parser_state \<Rightarrow> string \<Rightarrow> parser_state" where
  "scan_line s line = find_intervention line (count_sub line (count_major line s))"

definition scan_lines :: "parser_state \<Rightarrow> string list \<Rightarrow> parser_state" where
  "scan_lines s lines = foldl scan_line s lines"

definition analyze_workflow :: "string \<Rightarrow> nat \<times> nat \<times> nat option" where
  "analyze_workflow text =
     (let s = scan_lines initial_state (split_nl (strip text))
      in (major_steps s, sub_steps s, intervention_step_position s))"

section \<open>Python dictionaries and errors\<close>

text \<open>
  A \<open>dict\<close> keeps its keys in insertion order and the order is visible in the results
  (the site list, the order of the report), so a dictionary is an association list with
  distinct keys: assigning to a key that is present replaces its value in place, assigning
  to a new key appends it.
\<close>

fun dict_set :: "'k \<Rightarrow> 'v \<Rightarrow> ('k \<times> 'v) list \<Rightarrow> ('k \<times> 'v) list" where
  "dict_set k v [] = [(k, v)]"
| "dict_set k v ((k', v') # d) = (if k = k' then (k, v) # d else (k', v') # dict_set k v d)"

datatype error = IndexError | ValueError | KeyError | UnicodeDecodeError | OSError

section \<open>Corpus Loader (analyze\_wfs.py, load\_workflows)\<close>

definition WF_FOLDERS :: "string list" where
  "WF_FOLDERS = [''mayowf'', ''clevelandwf'', ''merckwf'', ''webmdwf'', ''wikiwf'']"

text \<open>
  The directory tree under \<open>root\<close>: a folder name is mapped to \<open>None\<close> when
  \<open>os.path.isdir\<close> is false, and otherwise to the files \<open>glob\<close> finds there, in the
  order in which \<open>glob\<close> returns them. A file is its base name and what
  \<open>open(f, encoding="utf-8").read()\<close> gives: the decoded text, or the error that is
  raised (\<open>UnicodeDecodeError\<close> for bytes that are not UTF-8, \<open>OSError\<close> for a file
  that cannot be opened).
\<close>

type_synonym listing = "(string \<times> (error + string)) list"
type_synonym root_dir = "string \<Rightarrow> listing option"

text \<open>
  The lazy group of \<open>wf_(.*?)_\<close> after the prefix \<open>wf_\<close>: the characters up to the first
  underscore, which is consumed; \<open>.\<close> does not match a newline, so the match fails when
  a newline or the end of the name comes first. The result is the group and the rest of
  the name after the match.
\<close>

fun lazy_group :: "string \<Rightarrow> (string \<times> string) option" where
  "lazy_group [] = None"
| "lazy_group (c # cs) =
     (if c = CHR ''_'' then Some ([], cs)
      else if c = NL then None
      else (case lazy_group cs of None \<Rightarrow> None | Some (d, r) \<Rightarrow> Some (c # d, r)))"

definition match_wf :: "string \<Rightarrow> (string \<times> string) option" where
  "match_wf s = (if starts_with ''wf_'' s then lazy_group (drop 3 s) else None)"

lemma lazy_group_shorter: "lazy_group s = Some (d, r) \<Longrightarrow> length r < length s"
  by (induction s arbitrary: d) (auto split: if_splits option.splits)

lemma match_wf_shorter: "match_wf s = Some (d, r) \<Longrightarrow> length r < length s"
  by (auto simp: match_wf_def split: if_splits dest!: lazy_group_shorter)

text \<open>
  \<open>re.findall(r"wf_(.*?)_", name)\<close>: the groups of the non-overlapping matches, found
  from left to right; after a match the search goes on behind it, after a failure at the
  next character.
\<close>

function findall_wf :: "string \<Rightarrow> string list" where
  "findall_wf [] = []"
| "findall_wf (c # cs) =
     (case match_wf (c # cs) of
        Some (d, rest) \<Rightarrow> d # findall_wf rest
      | None \<Rightarrow> findall_wf cs)"
  by pat_completeness auto
termination
  by (relation "measure length") (auto dest: match_wf_shorter)

text \<open>\<open>re.findall(...)[0]\<close>: indexing the empty list raises \<open>IndexError\<close>.\<close>

definition disease_of :: "string \<Rightarrow> error + string" where
  "disease_of basename =
     (case findall_wf basename of [] \<Rightarrow> Inl IndexError | d # _ \<Rightarrow> Inr d)"

type_synonym corpus = "(string \<times> string) list"
type_synonym wf_data = "(string \<times> corpus) list"

text \<open>
  \<open>if disease not in data: data[disease] = {}\<close> followed by
  \<open>data[disease][folder] = text\<close>.
\<close>

definition set_entry :: "string \<Rightarrow> string \<Rightarrow> string \<Rightarrow> wf_data \<Rightarrow> wf_data" where
  "set_entry disease folder text data =
     (let workflows = (case map_of data disease of None \<Rightarrow> [] | Some w \<Rightarrow> w)
      in dict_set disease (dict_set folder text workflows) data)"

text \<open>
  The loop over the files of one folder. The file is read first, so an error of the
  reading is raised before the name is looked at; nothing in \<open>load_workflows\<close> catches
  an error, so the first one ends the load.
\<close>

fun load_files :: "string \<Rightarrow> listing \<Rightarrow> wf_data \<Rightarrow> error + wf_data" where
  "load_files folder [] data = Inr data"
| "load_files folder ((basename, content) # fs) data =
     (case content of
        Inl e \<Rightarrow> Inl e
      | Inr text \<Rightarrow>
          (case disease_of basename of
             Inl e \<Rightarrow> Inl e
           | Inr disease \<Rightarrow> load_files folder fs (set_entry disease folder text data)))"

fun load_folders :: "root_dir \<Rightarrow> string list \<Rightarrow> wf_data \<Rightarrow> error + wf_data" where
  "load_folders rt [] data = Inr data"
| "load_folders rt (folder # folders) data =
     (case rt folder of
        None \<Rightarrow> load_folders rt folders data
      | Some fs \<Rightarrow>
          (case load_files folder fs data of
             Inl e \<Rightarrow> Inl e
           | Inr data' \<Rightarrow> load_folders rt folders data'))"

definition load_workflows :: "root_dir \<Rightarrow> error + wf_data" where
  "load_workflows rt = load_folders rt WF_FOLDERS []"

section \<open>Text Normalizer (analyze\_wfs.py, preprocess)\<close>

text \<open>
  A match of \<open>\d+[\.\)]\<close> at the start of \<open>s\<close>: the whole digit run (not empty) and the
  \<open>.\<close> or \<open>)\<close> behind it; a shorter digit run would be followed by a digit. The result
  is the rest of the string after the match.
\<close>

definition match_numbering :: "string \<Rightarrow> string option" where
  "match_numbering s =
     (let ds = takeWhile isdigit s; r = dropWhile isdigit s
      in if ds \<noteq> [] \<and> (case r of [] \<Rightarrow> False | c # _ \<Rightarrow> c = CHR ''.'' \<or> c = CHR '')'')
         then Some (tl r) else None)"

lemma match_numbering_shorter: "match_numbering s = Some r \<Longrightarrow> length r < length s"
proof -
  assume a: "match_numbering s = Some r"
  have "length (dropWhile isdigit s) \<le> length s"
    by (rule length_dropWhile_le)
  with a show ?thesis
    by (auto simp: match_numbering_def Let_def split: if_splits list.splits)
qed

text \<open>\<open>re.sub(r"\d+[\.\)]", " ", text)\<close>: every match, from left to right, becomes one space.\<close>

function re_sub_numbering :: "string \<Rightarrow> string" where
  "re_sub_numbering [] = []"
| "re_sub_numbering (c # cs) =
     (case match_numbering (c # cs) of
        Some rest \<Rightarrow> CHR '' '' # re_sub_numbering rest
      | None \<Rightarrow> c # re_sub_numbering cs)"
  by pat_completeness auto
termination
  by (relation "measure length") (auto dest: match_numbering_shorter)

definition preprocess :: "string \<Rightarrow> string" where
  "preprocess text = lower (re_sub_numbering text)"

section \<open>Term weighting, similarity and distinctive terms (analyze\_wfs.py)\<close>

text \<open>
  \<open>TfidfVectorizer\<close> and \<open>cosine_similarity\<close> are scikit-learn's and \<open>argsort\<close> is
  numpy's, not this repository's: the three are parameters of the model.

  Given the preprocessed documents a vectorizer returns the feature names
  (\<open>get_feature_names_out\<close>) and the matrix of \<open>fit_transform\<close>, one row of weights per
  document, or raises \<open>ValueError\<close> (an empty vocabulary). The weights are
  double-precision numbers; they are taken as the real numbers they denote, and the
  model does no arithmetic on them: it compares them and hands them on.
\<close>

type_synonym vectorizer = "string list \<Rightarrow> error + (string list \<times> real list list)"

text \<open>
  \<open>sklearn.metrics.pairwise.cosine_similarity(X)\<close>: the matrix of the similarities of
  the rows of \<open>X\<close>, as the library computes it in floating point.
\<close>

type_synonym similarity = "real list list \<Rightarrow> real list list"

text \<open>
  \<open>compute_similarity\<close>: the sites are the keys of \<open>workflows\<close> and the texts their
  values, in the order of the dictionary.
\<close>

definition compute_similarity ::
  "vectorizer \<Rightarrow> similarity \<Rightarrow> corpus \<Rightarrow> error + (string list \<times> real list list)" where
  "compute_similarity vect cosine_similarity workflows =
     (let sites = map fst workflows;
          texts = map (\<lambda>(site, text). preprocess text) workflows
      in case vect texts of
           Inl e \<Rightarrow> Inl e
         | Inr (terms, tfidf) \<Rightarrow> Inr (sites, cosine_similarity tfidf))"

text \<open>
  \<open>row.argsort()\<close>: indices that sort the row into ascending order. The default kind
  of sort is not stable, so where the indices of equal weights come to stand is left to
  the library. \<open>argsort_ok\<close> is what holds of every such function: the result lists each
  index of the row once, and the weights along it ascend.
\<close>

type_synonym argsort_fun = "real list \<Rightarrow> nat list"

definition argsort_ok :: "argsort_fun \<Rightarrow> bool" where
  "argsort_ok argsort =
     (\<forall>row. distinct (argsort row) \<and> set (argsort row) = {..<length row} \<and>
            sorted (map (\<lambda>j. row ! j) (argsort row)))"

text \<open>
  One such function, for the examples: the insertion sort of the indices, which keeps
  indices of equal weight in ascending order.
\<close>

definition insertion_argsort :: argsort_fun where
  "insertion_argsort row = sort_key (\<lambda>j. row ! j) [0..<length row]"

text \<open>\<open>[-10:]\<close> is the last ten (all, when there are fewer), \<open>[::-1]\<close> reverses.\<close>

definition last_n :: "nat \<Rightarrow> 'a list \<Rightarrow> 'a list" where
  "last_n n xs = drop (length xs - n) xs"

definition top_idxs :: "argsort_fun \<Rightarrow> real list \<Rightarrow> nat list" where
  "top_idxs argsort row = rev (last_n 10 (argsort row))"

text \<open>
  \<open>[terms[j] for j in top_idxs]\<close>: an index outside the array of feature names raises
  \<open>IndexError\<close>.
\<close>

fun take_terms :: "string list \<Rightarrow> nat list \<Rightarrow> error + string list" where
  "take_terms terms [] = Inr []"
| "take_terms terms (j # js) =
     (if j < length terms
      then (case take_terms terms js of
              Inl e \<Rightarrow> Inl e
            | Inr ts \<Rightarrow> Inr (terms ! j # ts))
      else Inl IndexError)"

text \<open>
  The loop over \<open>enumerate(all_text)\<close>: \<open>tfidf[i]\<close> raises \<open>IndexError\<close> when the matrix
  has no row \<open>i\<close>. The sites are the keys of a dictionary, hence distinct, and every
  assignment \<open>out[site] = ...\<close> adds a key behind those before.
\<close>

fun unique_rows ::
  "argsort_fun \<Rightarrow> string list \<Rightarrow> real list list \<Rightarrow> (nat \<times> string) list \<Rightarrow>
   error + (string \<times> string list) list" where
  "unique_rows argsort terms tfidf [] = Inr []"
| "unique_rows argsort terms tfidf ((i, site) # rest) =
     (if i < length tfidf
      then (case take_terms terms (top_idxs argsort (tfidf ! i)) of
              Inl e \<Rightarrow> Inl e
            | Inr ts \<Rightarrow>
                (case unique_rows argsort terms tfidf rest of
                   Inl e \<Rightarrow> Inl e
                 | Inr out \<Rightarrow> Inr ((site, ts) # out)))
      else Inl IndexError)"

definition find_unique_terms ::
  "vectorizer \<Rightarrow> argsort_fun \<Rightarrow> corpus \<Rightarrow> error + (string \<times> string list) list" where
  "find_unique_terms vect argsort workflows =
     (let all_text = map (\<lambda>(site, text). (site, preprocess text)) workflows
      in case vect (map snd all_text) of
           Inl e \<Rightarrow> Inl e
         | Inr (terms, tfidf) \<Rightarrow>
             unique_rows argsort terms tfidf (enumerate 0 (map fst all_text)))"

record report_entry =
  sites :: "string list"
  similarity_matrix :: "real list list"
  unique_terms :: "(string \<times> string list) list"

type_synonym report = "(string \<times> report_entry) list"

text \<open>
  The libraries that \<open>analyze\<close> calls: the vectorizer of \<open>compute_similarity\<close>, the one
  of \<open>find_unique_terms\<close> (\<open>max_features=40\<close>), \<open>cosine_similarity\<close> and \<open>argsort\<close>.
\<close>

record libraries =
  vect_sim :: vectorizer
  vect_uniq :: vectorizer
  cosine :: similarity
  arg_sort :: argsort_fun

text \<open>The body of the loop of \<open>analyze\<close> for one disease with at least two sources.\<close>

definition disease_report :: "libraries \<Rightarrow> corpus \<Rightarrow> error + report_entry" where
  "disease_report lib workflows =
     (case compute_similarity (vect_sim lib) (cosine lib) workflows of
        Inl e \<Rightarrow> Inl e
      | Inr (sts, sim) \<Rightarrow>
          (case find_unique_terms (vect_uniq lib) (arg_sort lib) workflows of
             Inl e \<Rightarrow> Inl e
           | Inr uniq \<Rightarrow>
               Inr \<lparr>sites = sts, similarity_matrix = sim, unique_terms = uniq\<rparr>))"

fun analyze_items :: "libraries \<Rightarrow> wf_data \<Rightarrow> report \<Rightarrow> error + report" where
  "analyze_items lib [] rep = Inr rep"
| "analyze_items lib ((disease, workflows) # items) rep =
     (if length workflows < 2 then analyze_items lib items rep
      else (case disease_report lib workflows of
              Inl e \<Rightarrow> Inl e
            | Inr entry \<Rightarrow> analyze_items lib items (dict_set disease entry rep)))"

definition analyze :: "libraries \<Rightarrow> root_dir \<Rightarrow> error + report" where
  "analyze lib rt =
     (case load_workflows rt of
        Inl e \<Rightarrow> Inl e
      | Inr wf_data \<Rightarrow> analyze_items lib wf_data [])"

section \<open>Aggregator and Ranker (str\_wfs.py, structural\_analysis)\<close>

definition DISEASE_LIST :: "string list" where
  "DISEASE_LIST =
     [''atopicdermatitis'', ''commoncold'', ''type2diabetes'', ''multiplesclerosis'',
      ''gerd'', ''cataracts'', ''pcos'', ''marfansyndrome'', ''asthma'', ''hemophilia'',
      ''hearingloss'', ''narcolepsy'', ''bph'', ''bellspalsy'', ''chronickidneydisease'',
      ''carpaltunnelsyndrome'', ''chlamydia'', ''tetanus'', ''acromegaly'', ''progeria'']"

definition SUFFIX_MAP :: "(string \<times> string) list" where
  "SUFFIX_MAP =
     [(''mayowf'', ''mayo''), (''clevelandwf'', ''cleveland''), (''merckwf'', ''merck''),
      (''webmdwf'', ''webmd''), (''wikiwf'', ''wiki'')]"

record aggregate =
  major :: nat
  sub :: nat
  aggression_pos_sum :: nat
  aggression_count :: nat
  count :: nat

text \<open>The value a missing key of the \<open>defaultdict\<close> starts with.\<close>

definition default_aggregate :: aggregate where
  "default_aggregate =
     \<lparr>major = 0, sub = 0, aggression_pos_sum = 0, aggression_count = 0, count = 0\<rparr>"

type_synonym results = "(string \<times> aggregate) list"

text \<open>
  \<open>os.path.exists(file_path)\<close> and what reading the file gives: \<open>None\<close> when the folder
  or the file is missing, else the text or the error raised.
\<close>

definition read_file :: "root_dir \<Rightarrow> string \<Rightarrow> string \<Rightarrow> (error + string) option" where
  "read_file rt folder filename =
     (case rt folder of None \<Rightarrow> None | Some fs \<Rightarrow> map_of fs filename)"

text \<open>
  The body of the \<open>try\<close> block behind the reading, for the text of one file;
  \<open>analyze_workflow\<close> runs before the first update and does not raise.
\<close>

definition accumulate :: "string \<Rightarrow> string \<Rightarrow> results \<Rightarrow> results" where
  "accumulate site_key text res =
     (case analyze_workflow text of (n_major, n_sub, intervention_pos) \<Rightarrow>
        (let a = (case map_of res site_key of None \<Rightarrow> default_aggregate | Some a \<Rightarrow> a);
             a1 = a\<lparr>major := major a + n_major, sub := sub a + n_sub,
                    count := count a + 1\<rparr>;
             a2 = (case intervention_pos of
                     None \<Rightarrow> a1
                   | Some pos \<Rightarrow> a1\<lparr>aggression_pos_sum := aggression_pos_sum a1 + pos,
                                      aggression_count := aggression_count a1 + 1\<rparr>)
         in dict_set site_key a2 res))"

text \<open>
  The inner loop over the folders for one disease and the outer loop over the diseases;
  the state is \<open>results\<close> and \<open>processed_files\<close>. \<open>SUFFIX_MAP[folder]\<close> stands outside the
  \<open>try\<close> block. An error of the reading is caught by \<open>except Exception: continue\<close>,
  before anything is updated.
\<close>

fun scan_folders ::
  "root_dir \<Rightarrow> string \<Rightarrow> string list \<Rightarrow> results \<times> nat \<Rightarrow> error + results \<times> nat" where
  "scan_folders rt disease [] acc = Inr acc"
| "scan_folders rt disease (folder # folders) (res, processed_files) =
     (case map_of SUFFIX_MAP folder of
        None \<Rightarrow> Inl KeyError
      | Some site_suffix \<Rightarrow>
          (let filename = ''wf_'' @ disease @ ''_'' @ site_suffix @ ''.txt''
           in case read_file rt folder filename of
                None \<Rightarrow> scan_folders rt disease folders (res, processed_files)
              | Some (Inl e) \<Rightarrow> scan_folders rt disease folders (res, processed_files)
              | Some (Inr text) \<Rightarrow>
                  scan_folders rt disease folders
                    (accumulate folder text res, processed_files + 1)))"

fun scan_diseases ::
  "root_dir \<Rightarrow> string list \<Rightarrow> results \<times> nat \<Rightarrow> error + results \<times> nat" where
  "scan_diseases rt [] acc = Inr acc"
| "scan_diseases rt (disease # diseases) acc =
     (case scan_folders rt disease WF_FOLDERS acc of
        Inl e \<Rightarrow> Inl e
      | Inr acc' \<Rightarrow> scan_diseases rt diseases acc')"

subsection \<open>Formatting\<close>

definition digit_char :: "nat \<Rightarrow> char" where
  "digit_char d = ''0123456789'' ! d"

function decimal :: "nat \<Rightarrow> string" where
  "decimal n = (if n < 10 then [digit_char n] else decimal (n div 10) @ [digit_char (n mod 10)])"
  by pat_completeness auto
termination
  by (relation "measure id") auto

text \<open>
  \<open>f"{a / b:.2f}"\<close> for natural numbers \<open>a\<close> and \<open>b > 0\<close>: the quotient rounded to
  hundredths, a tie going to the even neighbour, written with two decimals. The source
  rounds the double nearest to the quotient; the two agree while a tie is a double, which
  is so for every divisor below 40 (a source has at most 20 files).
\<close>

definition hundredths :: "nat \<Rightarrow> nat \<Rightarrow> nat" where
  "hundredths a b =
     (let q = (100 * a) div b; r = (100 * a) mod b
      in if 2 * r < b then q
         else if b < 2 * r then q + 1
         else if even q then q else q + 1)"

definition format_2f :: "nat \<Rightarrow> nat \<Rightarrow> string" where
  "format_2f a b =
     (let h = hundredths a b
      in decimal (h div 100) @ ''.'' @ [digit_char (h mod 100 div 10), digit_char (h mod 10)])"

text \<open>
  \<open>site.replace('wf', '').title()\<close>, for the ASCII letters of the folder names: a letter
  that follows a letter is lower case, any other letter upper case.
\<close>

fun remove_wf :: "string \<Rightarrow> string" where
  "remove_wf [] = []"
| "remove_wf [c] = [c]"
| "remove_wf (c # d # cs) =
     (if c = CHR ''w'' \<and> d = CHR ''f'' then remove_wf cs else c # remove_wf (d # cs))"

definition is_ascii_lower :: "char \<Rightarrow> bool" where
  "is_ascii_lower c = (97 \<le> (of_char c :: nat) \<and> (of_char c :: nat) \<le> 122)"

definition is_ascii_upper :: "char \<Rightarrow> bool" where
  "is_ascii_upper c = (65 \<le> (of_char c :: nat) \<and> (of_char c :: nat) \<le> 90)"

definition upper_char :: "char \<Rightarrow> char" where
  "upper_char c = (if is_ascii_lower c then char_of ((of_char c :: nat) - 32) else c)"

fun title_from :: "bool \<Rightarrow> string \<Rightarrow> string" where
  "title_from previous_is_cased [] = []"
| "title_from previous_is_cased (c # cs) =
     (if is_ascii_lower c \<or> is_ascii_upper c
      then (if previous_is_cased then lower_char c else upper_char c) # title_from True cs
      else c # title_from False cs)"

definition title :: "string \<Rightarrow> string" where
  "title s = title_from False s"

subsection \<open>The two tables\<close>

record step_row =
  Source :: string
  Avg_Major_Steps :: string
  Avg_Sub_Steps :: string
  Total_WFs_Processed :: nat

record aggression_row =
  Source_a :: string
  Avg_Intervention_Step_Position :: string
  Applicable_WFs_Count :: nat

text \<open>
  \<open>DataFrame.sort_values(by=column)\<close> on a column of strings: Python compares strings by
  their code points, which is the lexicographic order of the lists of codes. The sort
  keeps rows with equal keys in their order; for \<open>ascending=False\<close> pandas reverses the
  rows, sorts, and reverses the result. A frame built from no rows has no columns, and
  sorting it by a column raises \<open>KeyError\<close>.
\<close>

definition codes :: "string \<Rightarrow> nat list" where
  "codes s = map of_char s"

definition sort_values :: "('r \<Rightarrow> string) \<Rightarrow> bool \<Rightarrow> 'r list \<Rightarrow> error + 'r list" where
  "sort_values col ascending rows =
     (if rows = [] then Inl KeyError
      else if ascending then Inr (sort_key (\<lambda>r. codes (col r)) rows)
      else Inr (rev (sort_key (\<lambda>r. codes (col r)) (rev rows))))"

definition step_data :: "results \<Rightarrow> step_row list" where
  "step_data res =
     map (\<lambda>(site, data).
            \<lparr>Source = title (remove_wf site),
             Avg_Major_Steps = format_2f (major data) (count data),
             Avg_Sub_Steps = format_2f (sub data) (count data),
             Total_WFs_Processed = count data\<rparr>)
         (filter (\<lambda>(site, data). count data > 0) res)"

definition aggression_data :: "results \<Rightarrow> aggression_row list" where
  "aggression_data res =
     map (\<lambda>(site, data).
            \<lparr>Source_a = title (remove_wf site),
             Avg_Intervention_Step_Position =
               format_2f (aggression_pos_sum data) (aggression_count data),
             Applicable_WFs_Count = aggression_count data\<rparr>)
         (filter (\<lambda>(site, data). aggression_count data > 0) res)"

text \<open>The two frames that \<open>structural_analysis\<close> prints, from the accumulated totals.\<close>

definition final_tables :: "results \<Rightarrow> error + step_row list \<times> aggression_row list" where
  "final_tables res =
     (case sort_values Avg_Major_Steps False (step_data res) of
        Inl e \<Rightarrow> Inl e
      | Inr df_steps \<Rightarrow>
          (case sort_values Avg_Intervention_Step_Position True (aggression_data res) of
             Inl e \<Rightarrow> Inl e
           | Inr df_aggression \<Rightarrow> Inr (df_steps, df_aggression)))"

definition structural_analysis ::
  "root_dir \<Rightarrow> error + step_row list \<times> aggression_row list \<times> nat" where
  "structural_analysis root_dir =
     (case scan_diseases root_dir DISEASE_LIST ([], 0) of
        Inl e \<Rightarrow> Inl e
      | Inr (res, processed_files) \<Rightarrow>
          (case final_tables res of
             Inl e \<Rightarrow> Inl e
           | Inr (df_steps, df_aggression) \<Rightarrow> Inr (df_steps, df_aggression, processed_files)))"

section \<open>Predicates on directory trees\<close>

text \<open>
  Some listed file of a source folder has a name in which the pattern of the loader
  matches nowhere.
\<close>

definition malformed_file :: "root_dir \<Rightarrow> bool" where
  "malformed_file rt =
     (\<exists>folder \<in> set WF_FOLDERS. \<exists>fs. rt folder = Some fs \<and>
        (\<exists>f \<in> set fs. disease_of (fst f) = Inl IndexError))"

text \<open>Some listed file of a source folder cannot be read.\<close>

definition unreadable_file :: "root_dir \<Rightarrow> bool" where
  "unreadable_file rt =
     (\<exists>folder \<in> set WF_FOLDERS. \<exists>fs. rt folder = Some fs \<and> (\<exists>f \<in> set fs. isl (snd f)))"

text \<open>
  The text of the last file of a listing whose name gives the disease \<open>d\<close>: the one
  that the loader leaves under the key of the folder.
\<close>

fun last_text :: "listing \<Rightarrow> string \<Rightarrow> string option" where
  "last_text [] d = None"
| "last_text ((name, content) # fs) d =
     (case last_text fs d of
        Some t \<Rightarrow> Some t
      | None \<Rightarrow>
          (case content of
             Inl e \<Rightarrow> None
           | Inr text \<Rightarrow> (if disease_of name = Inr d then Some text else None)))"

text \<open>No two files of a listing give the same disease.\<close>

definition one_per_disease :: "listing \<Rightarrow> bool" where
  "one_per_disease fs =
     (\<forall>f \<in> set fs. \<forall>g \<in> set fs.
        disease_of (fst f) = disease_of (fst g) \<longrightarrow>
        disease_of (fst f) = Inl IndexError \<or> f = g)"

text \<open>
  Two directory trees hold the same files in every source folder; the order in which
  \<open>glob\<close> lists them may differ.
\<close>

definition same_files :: "root_dir \<Rightarrow> root_dir \<Rightarrow> bool" where
  "same_files r1 r2 =
     (\<forall>folder \<in> set WF_FOLDERS. rel_option (\<lambda>a b. set a = set b) (r1 folder) (r2 folder))"

definition one_file_per_disease :: "root_dir \<Rightarrow> bool" where
  "one_file_per_disease rt =
     (\<forall>folder \<in> set WF_FOLDERS.
        case rt folder of None \<Rightarrow> True | Some fs \<Rightarrow> one_per_disease fs)"

text \<open>
  Inputs for the examples: a vectorizer and a similarity that return, for the documents
  of the examples, what the libraries give for them, and a directory tree with the two
  folders \<open>mayowf\<close> and \<open>wikiwf\<close>, given by the names and texts of their files, all of
  them readable.
\<close>

definition example_vectorizer :: vectorizer where
  "example_vectorizer texts =
     (if texts = [''  surgery'', ''  diet'']
      then Inr ([''diet'', ''surgery''], [[0, 1], [1, 0]])
      else Inr ([''diet''], [[1], [1]]))"

definition example_similarity :: similarity where
  "example_similarity X =
     (if X = [[0, 1], [1, 0]] then [[1, 0], [0, 1]] else [[1, 1], [1, 1]])"

definition example_libraries :: libraries where
  "example_libraries =
     \<lparr>vect_sim = example_vectorizer, vect_uniq = example_vectorizer,
      cosine = example_similarity, arg_sort = insertion_argsort\<rparr>"

definition readable :: "(string \<times> string) list \<Rightarrow> listing" where
  "readable files = map (\<lambda>(name, text). (name, Inr text)) files"

definition example_dir :: "(string \<times> string) list \<Rightarrow> (string \<times> string) list \<Rightarrow> root_dir" where
  "example_dir mayo wiki =
     (\<lambda>folder. None)(''mayowf'' := Some (readable mayo), ''wikiwf'' := Some (readable wiki))"

text \<open>Two workflows of nine and of ten numbered steps, the intervention on the last.\<close>

definition nine_steps :: string where
  "nine_steps =
     ''1. Rest'' @ NL # ''2. Fluids'' @ NL # ''3. Diet'' @ NL # ''4. Exercise'' @ NL #
     ''5. Antacids'' @ NL # ''6. Review'' @ NL # ''7. Endoscopy'' @ NL # ''8. Referral'' @ NL #
     ''9. Surgery''"

definition ten_steps :: string where
  "ten_steps =
     ''1. Rest'' @ NL # ''2. Fluids'' @ NL # ''3. Diet'' @ NL # ''4. Exercise'' @ NL #
     ''5. Antacids'' @ NL # ''6. Review'' @ NL # ''7. Endoscopy'' @ NL # ''8. Referral'' @ NL #
     ''9. Counselling'' @ NL # ''10. Surgery''"

section \<open>Properties of the Step Structural Parser\<close>

lemma starts_with_iff: "starts_with kw s \<longleftrightarrow> (\<exists>post. s = kw @ post)"
  by (induction kw s rule: starts_with.induct) auto

lemma contains_iff: "contains kw s \<longleftrightarrow> (\<exists>pre post. s = pre @ kw @ post)"
proof (induction s)
  case Nil
  then show ?case by auto
next
  case (Cons c cs)
  show ?case
  proof
    assume "contains kw (c # cs)"
    then consider "starts_with kw (c # cs)" | "contains kw cs" by auto
    then show "\<exists>pre post. c # cs = pre @ kw @ post"
    proof cases
      case 1
      then obtain post where "c # cs = kw @ post" by (auto simp: starts_with_iff)
      then have "c # cs = [] @ kw @ post" by simp
      then show ?thesis by blast
    next
      case 2
      then obtain pre post where "cs = pre @ kw @ post" using Cons.IH by blast
      then have "c # cs = (c # pre) @ kw @ post" by simp
      then show ?thesis by blast
    qed
  next
    assume "\<exists>pre post. c # cs = pre @ kw @ post"
    then obtain pre post where e: "c # cs = pre @ kw @ post" by blast
    show "contains kw (c # cs)"
    proof (cases pre)
      case Nil
      with e have "starts_with kw (c # cs)" by (auto simp: starts_with_iff)
      then show ?thesis by simp
    next
      case (Cons a pre')
      with e have "cs = pre' @ kw @ post" by simp
      then have "contains kw cs" using Cons.IH by blast
      then show ?thesis by simp
    qed
  qed
qed

lemma has_keyword_iff:
  "has_keyword line \<longleftrightarrow>
     (\<exists>keyword \<in> set DEFINITIVE_INTERVENTION_KEYWORDS.
        \<exists>pre post. lower line = pre @ keyword @ post)"
  by (simp add: has_keyword_def list_ex_iff contains_iff)

lemma count_sub_fields [simp]:
  "major_steps (count_sub line s) = major_steps s"
  "current_major_step (count_sub line s) = current_major_step s"
  "intervention_step_position (count_sub line s) = intervention_step_position s"
  by (simp_all add: count_sub_def)

lemma count_major_position [simp]:
  "intervention_step_position (count_major line s) = intervention_step_position s"
  by (simp add: count_major_def split: option.splits)

lemma scan_line_keeps_position:
  "intervention_step_position s = Some p \<Longrightarrow>
   intervention_step_position (scan_line s line) = Some p"
  by (simp add: scan_line_def find_intervention_def)

lemma scan_lines_keeps_position:
  "intervention_step_position s = Some p \<Longrightarrow>
   intervention_step_position (scan_lines s lines) = Some p"
  unfolding scan_lines_def
  by (induction lines arbitrary: s) (simp_all add: scan_line_keeps_position)

lemma scan_line_position:
  "intervention_step_position s = None \<Longrightarrow>
   intervention_step_position (scan_line s line) =
     (if has_keyword line then
        (if current_major_step (count_major line s) > 0
           then Some (current_major_step (count_major line s))
         else if major_steps (count_major line s) > 0 then Some 1 else None)
      else None)"
  by (simp add: scan_line_def find_intervention_def)

lemma scan_line_major:
  "major_step_match line = Some n \<Longrightarrow>
   current_major_step (scan_line s line) = n \<and>
   major_steps (scan_line s line) = major_steps s + 1"
  by (simp add: scan_line_def find_intervention_def count_sub_def count_major_def)

text \<open>
  C3. When a line with a keyword is scanned and no position is recorded yet, the position
  becomes the current major step if that is positive (the step of the line itself
  included), else 1 if a major step has been counted, and else stays unset; a line with no
  keyword leaves it unset; a recorded position is kept by every later line. For
  \<open>"Consider steroids\n1. Apply cream"\<close> the result has no position, although the scan
  went on and counted the step; with a third line \<open>2. Then surgery\<close> the position is 2.
\<close>

theorem intervention_position_two_tier:
  "(intervention_step_position s = None \<and> has_keyword line \<longrightarrow>
      intervention_step_position (scan_line s line) =
        (if current_major_step (count_major line s) > 0
           then Some (current_major_step (count_major line s))
         else if major_steps (count_major line s) > 0 then Some 1
         else None))
   \<and> (intervention_step_position s = None \<and> \<not> has_keyword line \<longrightarrow>
        intervention_step_position (scan_line s line) = None)
   \<and> (intervention_step_position s = Some p \<longrightarrow>
        intervention_step_position (scan_lines s lines) = Some p)
   \<and> analyze_workflow (''Consider steroids'' @ NL # ''1. Apply cream'') = (1, 0, None)
   \<and> analyze_workflow
        (''Consider steroids'' @ NL # ''1. Apply cream'' @ NL # ''2. Then surgery'')
      = (2, 0, Some 2)"
proof -
  have a: "analyze_workflow (''Consider steroids'' @ NL # ''1. Apply cream'') = (1, 0, None)"
    by code_simp
  have b: "analyze_workflow
             (''Consider steroids'' @ NL # ''1. Apply cream'' @ NL # ''2. Then surgery'')
           = (2, 0, Some 2)"
    by code_simp
  show ?thesis
    using a b by (simp add: scan_line_position scan_lines_keeps_position)
qed

theorem intervention_position_two_tier_witness:
  "intervention_step_position initial_state = None \<and> has_keyword ''2) Surgery''
   \<and> intervention_step_position (scan_line initial_state ''2) Surgery'') = Some 2
   \<and> \<not> has_keyword ''1. Apply cream''
   \<and> intervention_step_position (scan_line initial_state ''1. Apply cream'') = None
   \<and> intervention_step_position (initial_state\<lparr>intervention_step_position := Some 2\<rparr>) = Some 2
   \<and> intervention_step_position
        (scan_lines (initial_state\<lparr>intervention_step_position := Some 2\<rparr>) [''9. surgery''])
      = Some 2"
proof -
  have h1: "intervention_step_position initial_state = None \<and> has_keyword ''2) Surgery''"
    by code_simp
  have e1: "(if current_major_step (count_major ''2) Surgery'' initial_state) > 0
               then Some (current_major_step (count_major ''2) Surgery'' initial_state))
             else if major_steps (count_major ''2) Surgery'' initial_state) > 0 then Some 1
             else None) = Some 2"
    by code_simp
  have h2: "intervention_step_position initial_state = None \<and> \<not> has_keyword ''1. Apply cream''"
    by code_simp
  have h3: "intervention_step_position (initial_state\<lparr>intervention_step_position := Some 2\<rparr>)
            = Some 2"
    by simp
  from intervention_position_two_tier [of initial_state "''2) Surgery''"] h1 e1
  have c1: "intervention_step_position (scan_line initial_state ''2) Surgery'') = Some 2"
    by simp
  from intervention_position_two_tier [of initial_state "''1. Apply cream''"] h2
  have c2: "intervention_step_position (scan_line initial_state ''1. Apply cream'') = None"
    by blast
  from intervention_position_two_tier
         [of "initial_state\<lparr>intervention_step_position := Some 2\<rparr>" _ 2 "[''9. surgery'']"] h3
  have c3: "intervention_step_position
              (scan_lines (initial_state\<lparr>intervention_step_position := Some 2\<rparr>) [''9. surgery''])
            = Some 2"
    by blast
  show ?thesis using h1 h2 h3 c1 c2 c3 by blast
qed

text \<open>
  C4. For \<open>"1. Apply cream\n2. Consider surgery\n- use daily"\<close> the parser returns 2 major
  steps, 1 sub-step and position 2. A line that matches the major-step pattern adds one to
  the count and sets the current major step to the number captured from the line, not to
  the count: the single line \<open>5. Consider surgery\<close> gives one step and position 5.
\<close>

theorem analyze_workflow_example:
  "analyze_workflow (''1. Apply cream'' @ NL # ''2. Consider surgery'' @ NL # ''- use daily'')
     = (2, 1, Some 2)
   \<and> (major_step_match line = Some n \<longrightarrow>
        current_major_step (scan_line s line) = n \<and>
        major_steps (scan_line s line) = major_steps s + 1)
   \<and> analyze_workflow ''5. Consider surgery'' = (1, 0, Some 5)"
proof -
  have a: "analyze_workflow
             (''1. Apply cream'' @ NL # ''2. Consider surgery'' @ NL # ''- use daily'')
           = (2, 1, Some 2)"
    by code_simp
  have b: "analyze_workflow ''5. Consider surgery'' = (1, 0, Some 5)"
    by code_simp
  show ?thesis using a b scan_line_major by blast
qed

theorem analyze_workflow_example_witness:
  "major_step_match ''5. Consider surgery'' = Some 5
   \<and> current_major_step (scan_line initial_state ''5. Consider surgery'') = 5
   \<and> major_steps (scan_line initial_state ''5. Consider surgery'') = major_steps initial_state + 1"
proof -
  have h: "major_step_match ''5. Consider surgery'' = Some 5"
    by code_simp
  from analyze_workflow_example [of "''5. Consider surgery''" 5 initial_state] h
  show ?thesis by blast
qed

lemma count_major_seen:
  "0 < major_steps (count_major line s) \<longleftrightarrow> 0 < major_steps s \<or> major_step_match line \<noteq> None"
  by (auto simp: count_major_def split: option.splits)

lemma count_major_current:
  "(0 < current_major_step s \<longrightarrow> 0 < major_steps s) \<Longrightarrow>
   0 < current_major_step (count_major line s) \<longrightarrow> 0 < major_steps (count_major line s)"
  by (auto simp: count_major_def split: option.splits)

lemma scan_line_counts:
  "major_steps (scan_line s line) = major_steps (count_major line s)"
  "current_major_step (scan_line s line) = current_major_step (count_major line s)"
  by (simp_all add: scan_line_def find_intervention_def)

lemma scan_line_recorded:
  assumes "0 < current_major_step s \<longrightarrow> 0 < major_steps s"
  shows "intervention_step_position (scan_line s line) \<noteq> None \<longleftrightarrow>
           intervention_step_position s \<noteq> None \<or>
           (has_keyword line \<and> (0 < major_steps s \<or> major_step_match line \<noteq> None))"
proof (cases "intervention_step_position s")
  case None
  show ?thesis
    using count_major_current [OF assms, of line] count_major_seen [of line s]
    by (auto simp: scan_line_position [OF None] None)
next
  case (Some p)
  then show ?thesis by (simp add: scan_line_keeps_position)
qed

lemma scan_lines_recorded:
  "(0 < current_major_step s \<longrightarrow> 0 < major_steps s) \<Longrightarrow>
   intervention_step_position (scan_lines s lines) \<noteq> None \<longleftrightarrow>
     intervention_step_position s \<noteq> None \<or>
     (\<exists>before line after. lines = before @ line # after \<and> has_keyword line \<and>
        (0 < major_steps s \<or> (\<exists>m \<in> set (before @ [line]). major_step_match m \<noteq> None)))"
proof (induction lines arbitrary: s)
  case Nil
  then show ?case by (simp add: scan_lines_def)
next
  case (Cons x xs)
  let ?s = "scan_line s x"
  have inv: "0 < current_major_step ?s \<longrightarrow> 0 < major_steps ?s"
    using count_major_current [OF Cons.prems, of x] by (simp add: scan_line_counts)
  have seen: "0 < major_steps ?s \<longleftrightarrow> 0 < major_steps s \<or> major_step_match x \<noteq> None"
    by (simp add: scan_line_counts count_major_seen)
  have step: "scan_lines s (x # xs) = scan_lines ?s xs"
    by (simp add: scan_lines_def)
  note ih = Cons.IH [OF inv]
  note rec = scan_line_recorded [OF Cons.prems, of x]
  show ?case
  proof
    assume "intervention_step_position (scan_lines s (x # xs)) \<noteq> None"
    then have "intervention_step_position ?s \<noteq> None \<or>
       (\<exists>before line after. xs = before @ line # after \<and> has_keyword line \<and>
          (0 < major_steps ?s \<or> (\<exists>m \<in> set (before @ [line]). major_step_match m \<noteq> None)))"
      using ih step by simp
    then consider
        (a) "intervention_step_position s \<noteq> None"
      | (b) "has_keyword x" "0 < major_steps s \<or> major_step_match x \<noteq> None"
      | (c) before line after where "xs = before @ line # after" "has_keyword line"
          "0 < major_steps ?s \<or> (\<exists>m \<in> set (before @ [line]). major_step_match m \<noteq> None)"
      using rec by blast
    then show "intervention_step_position s \<noteq> None \<or>
       (\<exists>before line after. x # xs = before @ line # after \<and> has_keyword line \<and>
          (0 < major_steps s \<or> (\<exists>m \<in> set (before @ [line]). major_step_match m \<noteq> None)))"
    proof cases
      case a
      then show ?thesis by simp
    next
      case b
      have "x # xs = [] @ x # xs" by simp
      moreover have "0 < major_steps s \<or> (\<exists>m \<in> set ([] @ [x]). major_step_match m \<noteq> None)"
        using b(2) by simp
      ultimately show ?thesis using b(1) by blast
    next
      case c
      have "x # xs = (x # before) @ line # after" using c(1) by simp
      moreover have "0 < major_steps s \<or>
                     (\<exists>m \<in> set ((x # before) @ [line]). major_step_match m \<noteq> None)"
        using c(3) seen by auto
      ultimately show ?thesis using c(2) by blast
    qed
  next
    assume "intervention_step_position s \<noteq> None \<or>
       (\<exists>before line after. x # xs = before @ line # after \<and> has_keyword line \<and>
          (0 < major_steps s \<or> (\<exists>m \<in> set (before @ [line]). major_step_match m \<noteq> None)))"
    then consider
        (a) "intervention_step_position s \<noteq> None"
      | (b) before line after where "x # xs = before @ line # after" "has_keyword line"
          "0 < major_steps s \<or> (\<exists>m \<in> set (before @ [line]). major_step_match m \<noteq> None)"
      by blast
    then have "intervention_step_position ?s \<noteq> None \<or>
       (\<exists>before line after. xs = before @ line # after \<and> has_keyword line \<and>
          (0 < major_steps ?s \<or> (\<exists>m \<in> set (before @ [line]). major_step_match m \<noteq> None)))"
    proof cases
      case a
      then show ?thesis using rec by simp
    next
      case b
      show ?thesis
      proof (cases before)
        case Nil
        with b have "x = line" by simp
        with b Nil have "has_keyword x \<and> (0 < major_steps s \<or> major_step_match x \<noteq> None)"
          by simp
        then show ?thesis using rec by simp
      next
        case (Cons y before')
        with b(1) have e: "xs = before' @ line # after" and y: "y = x" by simp_all
        have "0 < major_steps ?s \<or> (\<exists>m \<in> set (before' @ [line]). major_step_match m \<noteq> None)"
          using b(3) Cons y seen by auto
        with e b(2) show ?thesis by blast
      qed
    qed
    then show "intervention_step_position (scan_lines s (x # xs)) \<noteq> None"
      using ih step by simp
  qed
qed

lemma analyze_workflow_recorded:
  "snd (snd (analyze_workflow text)) \<noteq> None \<longleftrightarrow>
     (\<exists>before line after. split_nl (strip text) = before @ line # after \<and> has_keyword line \<and>
        (\<exists>m \<in> set (before @ [line]). major_step_match m \<noteq> None))"
proof -
  have "intervention_step_position (scan_lines initial_state (split_nl (strip text))) \<noteq> None \<longleftrightarrow>
     intervention_step_position initial_state \<noteq> None \<or>
     (\<exists>before line after. split_nl (strip text) = before @ line # after \<and> has_keyword line \<and>
        (0 < major_steps initial_state \<or>
         (\<exists>m \<in> set (before @ [line]). major_step_match m \<noteq> None)))"
    by (rule scan_lines_recorded) (simp add: initial_state_def)
  then show ?thesis by (simp add: analyze_workflow_def Let_def initial_state_def)
qed

text \<open>
  C10. The detection reads the line and nothing else of it than its lower-cased text:
  a line scanned while no position is recorded records one exactly when that text
  contains a keyword of the list as a contiguous substring, wherever it stands, and a
  major step has been counted (the step of the line itself included). For a whole text,
  \<open>analyze_workflow\<close> returns a position exactly when some line contains a keyword as a
  substring and that line or a line before it is a major step. So \<open>cut\<close> inside
  \<open>Execute\<close> and \<open>neuro\<close> inside \<open>Neurological\<close> mark step 1 as the intervention,
  while \<open>1. Rest\<close>, which holds no keyword, gives no position.
\<close>

theorem keyword_matches_inside_words:
  "(intervention_step_position s = None \<longrightarrow>
      (intervention_step_position (scan_line s line) \<noteq> None \<longleftrightarrow>
         (\<exists>keyword \<in> set DEFINITIVE_INTERVENTION_KEYWORDS.
            \<exists>pre post. lower line = pre @ keyword @ post) \<and>
         (0 < current_major_step (count_major line s) \<or> 0 < major_steps (count_major line s))))
   \<and> (snd (snd (analyze_workflow text)) \<noteq> None \<longleftrightarrow>
        (\<exists>before l after.
           split_nl (strip text) = before @ l # after \<and>
           (\<exists>keyword \<in> set DEFINITIVE_INTERVENTION_KEYWORDS.
              \<exists>pre post. lower l = pre @ keyword @ post) \<and>
           (\<exists>m \<in> set (before @ [l]). major_step_match m \<noteq> None)))
   \<and> analyze_workflow ''1. Execute the plan'' = (1, 0, Some 1)
   \<and> analyze_workflow ''1. Neurological exam'' = (1, 0, Some 1)
   \<and> analyze_workflow ''1. Rest'' = (1, 0, None)
   \<and> analyze_workflow (''1. Rest'' @ NL # ''2. Diet'' @ NL # ''3. Execute the plan'')
       = (3, 0, Some 3)"
proof -
  have a: "intervention_step_position (scan_line s line) \<noteq> None \<longleftrightarrow>
         (\<exists>keyword \<in> set DEFINITIVE_INTERVENTION_KEYWORDS.
            \<exists>pre post. lower line = pre @ keyword @ post) \<and>
         (0 < current_major_step (count_major line s) \<or> 0 < major_steps (count_major line s))"
    if "intervention_step_position s = None"
    by (simp add: scan_line_position [OF that] has_keyword_iff)
  have b: "snd (snd (analyze_workflow text)) \<noteq> None \<longleftrightarrow>
        (\<exists>before l after.
           split_nl (strip text) = before @ l # after \<and>
           (\<exists>keyword \<in> set DEFINITIVE_INTERVENTION_KEYWORDS.
              \<exists>pre post. lower l = pre @ keyword @ post) \<and>
           (\<exists>m \<in> set (before @ [l]). major_step_match m \<noteq> None))"
    unfolding analyze_workflow_recorded has_keyword_iff ..
  have c: "analyze_workflow ''1. Execute the plan'' = (1, 0, Some 1)" by code_simp
  have d: "analyze_workflow ''1. Neurological exam'' = (1, 0, Some 1)" by code_simp
  have e: "analyze_workflow ''1. Rest'' = (1, 0, None)" by code_simp
  have f: "analyze_workflow (''1. Rest'' @ NL # ''2. Diet'' @ NL # ''3. Execute the plan'')
            = (3, 0, Some 3)" by code_simp
  show ?thesis using a b c d e f by blast
qed

theorem keyword_matches_inside_words_witness:
  "intervention_step_position initial_state = None
   \<and> ''cut'' \<in> set DEFINITIVE_INTERVENTION_KEYWORDS
   \<and> lower ''1. Execute the plan'' = ''1. exe'' @ ''cut'' @ ''e the plan''
   \<and> 0 < current_major_step (count_major ''1. Execute the plan'' initial_state)
   \<and> intervention_step_position (scan_line initial_state ''1. Execute the plan'') \<noteq> None
   \<and> split_nl (strip ''1. Execute the plan'') = [] @ ''1. Execute the plan'' # []
   \<and> major_step_match ''1. Execute the plan'' \<noteq> None
   \<and> snd (snd (analyze_workflow ''1. Execute the plan'')) \<noteq> None
   \<and> intervention_step_position (scan_line initial_state ''1. Rest'') = None"
proof -
  let ?l = "''1. Execute the plan''"
  have h1: "intervention_step_position initial_state = None" by (simp add: initial_state_def)
  have h2: "''cut'' \<in> set DEFINITIVE_INTERVENTION_KEYWORDS"
    by (simp add: DEFINITIVE_INTERVENTION_KEYWORDS_def)
  have h3: "lower ?l = ''1. exe'' @ ''cut'' @ ''e the plan''" by code_simp
  have h4: "0 < current_major_step (count_major ?l initial_state)" by code_simp
  have h5: "split_nl (strip ?l) = [] @ ?l # []" by code_simp
  have h6: "major_step_match ?l \<noteq> None" by code_simp
  have h7: "\<not> has_keyword ''1. Rest''" by code_simp
  note t = keyword_matches_inside_words [of initial_state ?l ?l]
  have k: "\<exists>keyword \<in> set DEFINITIVE_INTERVENTION_KEYWORDS.
             \<exists>pre post. lower ?l = pre @ keyword @ post"
    using h2 h3 by blast
  have c1: "intervention_step_position (scan_line initial_state ?l) \<noteq> None"
    using t h1 k h4 by blast
  have m: "\<exists>m \<in> set ([] @ [?l]). major_step_match m \<noteq> None" using h6 by simp
  have c2: "snd (snd (analyze_workflow ?l)) \<noteq> None"
    using t h5 k m by blast
  note u = keyword_matches_inside_words [of initial_state "''1. Rest''" ?l]
  have nk: "\<not> (\<exists>keyword \<in> set DEFINITIVE_INTERVENTION_KEYWORDS.
             \<exists>pre post. lower ''1. Rest'' = pre @ keyword @ post)"
    using h7 by (simp add: has_keyword_iff)
  have c3: "intervention_step_position (scan_line initial_state ''1. Rest'') = None"
    using u h1 nk by blast
  show ?thesis using h1 h2 h3 h4 h5 h6 c1 c2 c3 by blast
qed

section \<open>Properties of the Text Normalizer\<close>

lemma isdigit_lower: "isdigit c \<Longrightarrow> lower_char c = c"
  by (auto simp: isdigit_def lower_char_def)

lemma not_digit_no_match: "\<not> isdigit c \<Longrightarrow> match_numbering (c # cs) = None"
  by (simp add: match_numbering_def)

lemma punct_not_digit: "p = CHR ''.'' \<or> p = CHR '')'' \<Longrightarrow> \<not> isdigit p"
  by (auto simp: isdigit_def)

lemma match_numbering_run:
  assumes "ds \<noteq> []" "\<forall>c \<in> set ds. isdigit c" "p = CHR ''.'' \<or> p = CHR '')''"
  shows "match_numbering (ds @ p # rest) = Some rest"
proof -
  have np: "\<not> isdigit p" using assms(3) by (rule punct_not_digit)
  have t: "takeWhile isdigit (ds @ p # rest) = ds"
    using assms(2) np by (simp add: takeWhile_append2)
  have d: "dropWhile isdigit (ds @ p # rest) = p # rest"
    using assms(2) np by (simp add: dropWhile_append2)
  show ?thesis using assms(1,3) by (simp add: match_numbering_def t d)
qed

lemma re_sub_run:
  assumes "ds \<noteq> []" "\<forall>c \<in> set ds. isdigit c" "p = CHR ''.'' \<or> p = CHR '')''"
  shows "re_sub_numbering (ds @ p # rest) = CHR '' '' # re_sub_numbering rest"
proof -
  obtain d ds' where e: "ds = d # ds'" using assms(1) by (cases ds) auto
  have "match_numbering ((d # ds') @ p # rest) = Some rest"
    using match_numbering_run [OF assms] e by simp
  then show ?thesis using e by simp
qed

lemma match_numbering_bare:
  assumes "\<forall>c \<in> set ds. isdigit c"
    and "rest = [] \<or> \<not> (isdigit (hd rest) \<or> hd rest = CHR ''.'' \<or> hd rest = CHR '')'')"
  shows "match_numbering (ds @ rest) = None"
proof -
  have d: "dropWhile isdigit (ds @ rest) = rest"
    using assms by (cases rest) (auto simp: dropWhile_append2 dropWhile_eq_Nil_conv)
  show ?thesis using assms(2) by (auto simp: match_numbering_def d split: list.splits)
qed

lemma re_sub_bare:
  "\<forall>c \<in> set ds. isdigit c \<Longrightarrow>
   rest = [] \<or> \<not> (isdigit (hd rest) \<or> hd rest = CHR ''.'' \<or> hd rest = CHR '')'') \<Longrightarrow>
   re_sub_numbering (ds @ rest) = ds @ re_sub_numbering rest"
proof (induction ds)
  case Nil
  then show ?case by simp
next
  case (Cons d ds)
  have "match_numbering ((d # ds) @ rest) = None"
    using Cons.prems by (intro match_numbering_bare) auto
  then have "re_sub_numbering ((d # ds) @ rest) = d # re_sub_numbering (ds @ rest)" by simp
  then show ?case using Cons by simp
qed

lemma lower_digits: "\<forall>c \<in> set ds. isdigit c \<Longrightarrow> lower ds = ds"
  by (induction ds) (simp_all add: lower_def isdigit_lower)

text \<open>
  C8, as stated, fails: a bare integer with no \<open>.\<close> or \<open>)\<close> behind it is not replaced.
\<close>

theorem preprocess_bare_integer_kept:
  "preprocess ''take 2 pills'' = ''take 2 pills'' \<and> preprocess ''take 2 pills'' \<noteq> ''take   pills''"
  by code_simp

text \<open>
  C8, amended. The normalizer replaces a run of digits together with the \<open>.\<close> or \<open>)\<close> that
  follows it by one space; a run of digits followed by anything else, or by nothing, is
  kept; every other character is kept and lower-cased, so words, hyphens and the list
  markers \<open>-\<close> and \<open>*\<close> stay.
\<close>

theorem preprocess_numbering:
  "(ds \<noteq> [] \<and> (\<forall>c \<in> set ds. isdigit c) \<and> (p = CHR ''.'' \<or> p = CHR '')'') \<longrightarrow>
      preprocess (ds @ p # rest) = CHR '' '' # preprocess rest)
   \<and> ((\<forall>c \<in> set ds. isdigit c) \<and>
       (rest = [] \<or> \<not> (isdigit (hd rest) \<or> hd rest = CHR ''.'' \<or> hd rest = CHR '')'')) \<longrightarrow>
      preprocess (ds @ rest) = ds @ preprocess rest)
   \<and> (\<not> isdigit c \<longrightarrow> preprocess (c # rest) = lower_char c # preprocess rest)
   \<and> preprocess [] = []"
proof -
  have a: "preprocess (ds @ p # rest) = CHR '' '' # preprocess rest"
    if "ds \<noteq> []" "\<forall>c \<in> set ds. isdigit c" "p = CHR ''.'' \<or> p = CHR '')''"
    using re_sub_run [OF that] by (simp add: preprocess_def lower_def lower_char_def)
  have b: "preprocess (ds @ rest) = ds @ preprocess rest"
    if "\<forall>c \<in> set ds. isdigit c"
       "rest = [] \<or> \<not> (isdigit (hd rest) \<or> hd rest = CHR ''.'' \<or> hd rest = CHR '')'')"
  proof -
    have "preprocess (ds @ rest) = lower ds @ preprocess rest"
      using re_sub_bare [OF that] by (simp add: preprocess_def lower_def)
    then show ?thesis using that(1) by (simp add: lower_digits)
  qed
  have c: "preprocess (c # rest) = lower_char c # preprocess rest" if "\<not> isdigit c"
    using that by (simp add: preprocess_def lower_def not_digit_no_match)
  have d: "preprocess [] = []" by (simp add: preprocess_def lower_def)
  show ?thesis using a b c d by blast
qed

theorem preprocess_numbering_witness:
  "preprocess ''12) Eat'' = CHR '' '' # preprocess '' Eat''
   \<and> preprocess ''2 pills'' = ''2'' @ preprocess '' pills''
   \<and> preprocess ''- Eat'' = CHR ''-'' # preprocess '' Eat''"
proof -
  have h1: "''12'' \<noteq> [] \<and> (\<forall>c \<in> set ''12''. isdigit c) \<and>
            (CHR '')'' = CHR ''.'' \<or> CHR '')'' = CHR '')'')"
    by (simp add: isdigit_def)
  have h2: "(\<forall>c \<in> set ''2''. isdigit c) \<and>
            ('' pills'' = [] \<or> \<not> (isdigit (hd '' pills'') \<or> hd '' pills'' = CHR ''.'' \<or>
               hd '' pills'' = CHR '')''))"
    by (simp add: isdigit_def)
  have h3: "\<not> isdigit CHR ''-''" by (simp add: isdigit_def)
  have l: "lower_char CHR ''-'' = CHR ''-''" by (simp add: lower_char_def)
  from preprocess_numbering [of "''12''" "CHR '')''" "'' Eat''"] h1
  have c1: "preprocess (''12'' @ CHR '')'' # '' Eat'') = CHR '' '' # preprocess '' Eat''"
    by blast
  from preprocess_numbering [of "''2''" _ "'' pills''"] h2
  have c2: "preprocess (''2'' @ '' pills'') = ''2'' @ preprocess '' pills''"
    by blast
  from preprocess_numbering [of _ _ "'' Eat''" "CHR ''-''"] h3
  have c3: "preprocess (CHR ''-'' # '' Eat'') = lower_char CHR ''-'' # preprocess '' Eat''"
    by blast
  show ?thesis using c1 c2 c3 l by simp
qed

section \<open>Properties of the Aggregator and Ranker\<close>

lemma format_examples:
  "format_2f 19 2 = ''9.50''" "format_2f 41 4 = ''10.25''"
  "format_2f 0 2 = ''0.00''" "format_2f 0 4 = ''0.00''"
  by (simp_all add: format_2f_def hundredths_def digit_char_def Let_def)

lemma title_examples: "title ''mayo'' = ''Mayo''" "title ''cleveland'' = ''Cleveland''"
  by code_simp+

lemma codes_example: "codes ''10.25'' < codes ''9.50''"
  by (simp add: codes_def)

lemma final_tables_example:
  "final_tables
     [(''mayowf'', \<lparr>major = 19, sub = 0, aggression_pos_sum = 19, aggression_count = 2,
                    count = 2\<rparr>),
      (''clevelandwf'', \<lparr>major = 41, sub = 0, aggression_pos_sum = 41, aggression_count = 4,
                         count = 4\<rparr>)]
   = Inr ([\<lparr>Source = ''Mayo'', Avg_Major_Steps = ''9.50'', Avg_Sub_Steps = ''0.00'',
             Total_WFs_Processed = 2\<rparr>,
           \<lparr>Source = ''Cleveland'', Avg_Major_Steps = ''10.25'', Avg_Sub_Steps = ''0.00'',
             Total_WFs_Processed = 4\<rparr>],
          [\<lparr>Source_a = ''Cleveland'', Avg_Intervention_Step_Position = ''10.25'',
             Applicable_WFs_Count = 4\<rparr>,
           \<lparr>Source_a = ''Mayo'', Avg_Intervention_Step_Position = ''9.50'',
             Applicable_WFs_Count = 2\<rparr>])"
proof -
  have le: "codes ''10.25'' \<le> codes ''9.50''" and nle: "\<not> codes ''9.50'' \<le> codes ''10.25''"
    using codes_example by simp_all
  show ?thesis
    by (simp add: final_tables_def step_data_def aggression_data_def sort_values_def
          format_examples title_examples le nle)
qed

lemma steps_examples:
  "analyze_workflow nine_steps = (9, 0, Some 9)" "analyze_workflow ten_steps = (10, 0, Some 10)"
  by code_simp+

lemma format_examples_1:
  "format_2f 9 (Suc 0) = ''9.00''" "format_2f 10 (Suc 0) = ''10.00''"
  "format_2f 0 (Suc 0) = ''0.00''"
  by (simp_all add: format_2f_def hundredths_def digit_char_def Let_def)

lemma title_examples_1: "title ''wiki'' = ''Wiki''"
  by code_simp

lemma codes_example_1: "codes ''10.00'' < codes ''9.00''"
  by (simp add: codes_def)

lemma scan_example:
  "scan_diseases (example_dir [(''wf_gerd_mayo.txt'', nine_steps)]
                              [(''wf_gerd_wiki.txt'', ten_steps)]) DISEASE_LIST ([], 0)
   = Inr ([(''mayowf'', \<lparr>major = 9, sub = 0, aggression_pos_sum = 9, aggression_count = 1,
                           count = 1\<rparr>),
           (''wikiwf'', \<lparr>major = 10, sub = 0, aggression_pos_sum = 10, aggression_count = 1,
                           count = 1\<rparr>)], 2)"
  by (simp add: DISEASE_LIST_def WF_FOLDERS_def SUFFIX_MAP_def read_file_def example_dir_def
        readable_def accumulate_def steps_examples default_aggregate_def)

lemma structural_example:
  "structural_analysis (example_dir [(''wf_gerd_mayo.txt'', nine_steps)]
                                    [(''wf_gerd_wiki.txt'', ten_steps)])
   = Inr ([\<lparr>Source = ''Mayo'', Avg_Major_Steps = ''9.00'', Avg_Sub_Steps = ''0.00'',
             Total_WFs_Processed = 1\<rparr>,
           \<lparr>Source = ''Wiki'', Avg_Major_Steps = ''10.00'', Avg_Sub_Steps = ''0.00'',
             Total_WFs_Processed = 1\<rparr>],
          [\<lparr>Source_a = ''Wiki'', Avg_Intervention_Step_Position = ''10.00'',
             Applicable_WFs_Count = 1\<rparr>,
           \<lparr>Source_a = ''Mayo'', Avg_Intervention_Step_Position = ''9.00'',
             Applicable_WFs_Count = 1\<rparr>],
          2)"
proof -
  have le: "codes ''10.00'' \<le> codes ''9.00''" and nle: "\<not> codes ''9.00'' \<le> codes ''10.00''"
    using codes_example_1 by simp_all
  show ?thesis
    by (simp add: structural_analysis_def scan_example final_tables_def step_data_def
          aggression_data_def sort_values_def format_examples_1 title_examples
          title_examples_1 le nle)
qed

text \<open>
  C2. The two tables are sorted on the column of formatted averages, which holds
  strings, so the order is that of the strings. With one Mayo workflow of 9 steps and one
  Wiki workflow of 10 steps, table 1 lists 9.00 before 10.00 although it is to be
  descending, and table 2 lists 10.00 before 9.00 although it is to be ascending. The
  same happens for the totals of the second part (Mayo: 19 major steps and a position sum
  of 19 over 2 files, average 9.50; Cleveland: 41 and 41 over 4 files, average 10.25).
\<close>

theorem tables_sorted_as_strings:
  "structural_analysis (example_dir [(''wf_gerd_mayo.txt'', nine_steps)]
                                      [(''wf_gerd_wiki.txt'', ten_steps)])
     = Inr ([\<lparr>Source = ''Mayo'', Avg_Major_Steps = ''9.00'', Avg_Sub_Steps = ''0.00'',
               Total_WFs_Processed = 1\<rparr>,
             \<lparr>Source = ''Wiki'', Avg_Major_Steps = ''10.00'', Avg_Sub_Steps = ''0.00'',
               Total_WFs_Processed = 1\<rparr>],
            [\<lparr>Source_a = ''Wiki'', Avg_Intervention_Step_Position = ''10.00'',
               Applicable_WFs_Count = 1\<rparr>,
             \<lparr>Source_a = ''Mayo'', Avg_Intervention_Step_Position = ''9.00'',
               Applicable_WFs_Count = 1\<rparr>],
            2)
   \<and> final_tables
       [(''mayowf'', \<lparr>major = 19, sub = 0, aggression_pos_sum = 19, aggression_count = 2,
                      count = 2\<rparr>),
        (''clevelandwf'', \<lparr>major = 41, sub = 0, aggression_pos_sum = 41, aggression_count = 4,
                           count = 4\<rparr>)]
     = Inr ([\<lparr>Source = ''Mayo'', Avg_Major_Steps = ''9.50'', Avg_Sub_Steps = ''0.00'',
               Total_WFs_Processed = 2\<rparr>,
             \<lparr>Source = ''Cleveland'', Avg_Major_Steps = ''10.25'', Avg_Sub_Steps = ''0.00'',
               Total_WFs_Processed = 4\<rparr>],
            [\<lparr>Source_a = ''Cleveland'', Avg_Intervention_Step_Position = ''10.25'',
               Applicable_WFs_Count = 4\<rparr>,
             \<lparr>Source_a = ''Mayo'', Avg_Intervention_Step_Position = ''9.50'',
               Applicable_WFs_Count = 2\<rparr>])"
  using structural_example final_tables_example by (rule conjI)

section \<open>Properties of the Distinctive Term Extractor\<close>

lemma argsort_okD:
  assumes "argsort_ok argsort"
  shows "distinct (argsort row)" "set (argsort row) = {..<length row}"
        "sorted (map (\<lambda>j. row ! j) (argsort row))"
  using assms by (simp_all add: argsort_ok_def)

lemma insertion_argsort_ok: "argsort_ok insertion_argsort"
  by (auto simp: argsort_ok_def insertion_argsort_def)

lemma length_argsort: "argsort_ok argsort \<Longrightarrow> length (argsort row) = length row"
proof -
  assume a: "argsort_ok argsort"
  have "length (argsort row) = card (set (argsort row))"
    using argsort_okD(1) [OF a] by (simp add: distinct_card)
  also have "\<dots> = length row"
    using argsort_okD(2) [OF a] by simp
  finally show ?thesis .
qed

lemma length_top_idxs:
  "argsort_ok argsort \<Longrightarrow> length (top_idxs argsort row) = min 10 (length row)"
  by (auto simp: top_idxs_def last_n_def length_argsort)

lemma set_top_idxs: "argsort_ok argsort \<Longrightarrow> set (top_idxs argsort row) \<subseteq> {..<length row}"
  using set_drop_subset [of "length (argsort row) - 10" "argsort row"]
  by (simp add: top_idxs_def last_n_def argsort_okD(2))

lemma distinct_top_idxs: "argsort_ok argsort \<Longrightarrow> distinct (top_idxs argsort row)"
  by (simp add: top_idxs_def last_n_def argsort_okD(1))

lemma top_idxs_sorted:
  assumes "argsort_ok argsort"
  shows "sorted_wrt (\<lambda>i j. row ! j \<le> row ! i) (top_idxs argsort row)"
proof -
  have "sorted_wrt (\<lambda>i j. row ! i \<le> row ! j) (argsort row)"
    using argsort_okD(3) [OF assms, of row] by (simp add: sorted_map)
  then have "sorted_wrt (\<lambda>i j. row ! i \<le> row ! j) (drop (length (argsort row) - 10) (argsort row))"
    by (rule sorted_wrt_drop)
  then show ?thesis by (simp add: top_idxs_def last_n_def sorted_wrt_rev)
qed

lemma top_idxs_highest:
  assumes "argsort_ok argsort" "i \<in> set (top_idxs argsort row)" "j < length row"
    and "j \<notin> set (top_idxs argsort row)"
  shows "row ! j \<le> row ! i"
proof -
  let ?xs = "argsort row"
  let ?k = "length ?xs - 10"
  have "sorted_wrt (\<lambda>a b. row ! a \<le> row ! b) ?xs"
    using argsort_okD(3) [OF assms(1), of row] by (simp add: sorted_map)
  then have "sorted_wrt (\<lambda>a b. row ! a \<le> row ! b) (take ?k ?xs @ drop ?k ?xs)" by simp
  then have le: "\<forall>a \<in> set (take ?k ?xs). \<forall>b \<in> set (drop ?k ?xs). row ! a \<le> row ! b"
    by (simp only: sorted_wrt_append) simp
  have i: "i \<in> set (drop ?k ?xs)" using assms(2) by (simp add: top_idxs_def last_n_def)
  have "j \<in> set (take ?k ?xs @ drop ?k ?xs)"
    using assms(3) argsort_okD(2) [OF assms(1), of row] by simp
  moreover have "j \<notin> set (drop ?k ?xs)" using assms(4) by (simp add: top_idxs_def last_n_def)
  ultimately have "j \<in> set (take ?k ?xs)" by (simp only: set_append) blast
  with le i show ?thesis by blast
qed

lemma top_idxs_holds_nonzero:
  assumes ok: "argsort_ok argsort" and nonneg: "\<forall>w \<in> set row. 0 \<le> w"
    and few: "length (filter (\<lambda>w. w \<noteq> 0) row) < 10" and n: "10 \<le> length row"
    and j: "j < length row" "row ! j \<noteq> 0"
  shows "j \<in> set (top_idxs argsort row)"
proof (rule ccontr)
  assume nj: "j \<notin> set (top_idxs argsort row)"
  have "0 \<le> row ! j" using nonneg j(1) by simp
  with j(2) have pos: "0 < row ! j" by simp
  have "\<forall>i \<in> set (top_idxs argsort row). row ! j \<le> row ! i"
    using top_idxs_highest [OF ok _ j(1) nj] by blast
  with pos have "\<forall>i \<in> set (top_idxs argsort row). row ! i \<noteq> 0" by fastforce
  then have sub: "set (top_idxs argsort row) \<subseteq> {i. i < length row \<and> row ! i \<noteq> 0}"
    using set_top_idxs [OF ok, of row] by auto
  have "card (set (top_idxs argsort row)) = 10"
    using n by (simp add: distinct_card distinct_top_idxs [OF ok] length_top_idxs [OF ok])
  moreover have "card (set (top_idxs argsort row)) \<le> card {i. i < length row \<and> row ! i \<noteq> 0}"
    by (rule card_mono) (use sub in auto)
  moreover have "card {i. i < length row \<and> row ! i \<noteq> 0} = length (filter (\<lambda>w. w \<noteq> 0) row)"
    by (simp add: length_filter_conv_card)
  ultimately show False using few by simp
qed

lemma top_idxs_nonzero_count:
  assumes ok: "argsort_ok argsort" and nonneg: "\<forall>w \<in> set row. 0 \<le> w"
    and few: "length (filter (\<lambda>w. w \<noteq> 0) row) < 10" and n: "10 \<le> length row"
  shows "length (filter (\<lambda>j. row ! j \<noteq> 0) (top_idxs argsort row))
         = length (filter (\<lambda>w. w \<noteq> 0) row)"
proof -
  have "{j. row ! j \<noteq> 0} \<inter> set (top_idxs argsort row) = {i. i < length row \<and> row ! i \<noteq> 0}"
    using top_idxs_holds_nonzero [OF ok nonneg few n] set_top_idxs [OF ok, of row] by auto
  then have "length (filter (\<lambda>j. row ! j \<noteq> 0) (top_idxs argsort row))
             = card {i. i < length row \<and> row ! i \<noteq> 0}"
    by (simp add: distinct_length_filter distinct_top_idxs [OF ok])
  then show ?thesis by (simp add: length_filter_conv_card)
qed

lemma top_idxs_zero_count:
  assumes ok: "argsort_ok argsort" and nonneg: "\<forall>w \<in> set row. 0 \<le> w"
    and few: "length (filter (\<lambda>w. w \<noteq> 0) row) < 10" and n: "10 \<le> length row"
  shows "length (filter (\<lambda>j. row ! j = 0) (top_idxs argsort row))
         = 10 - length (filter (\<lambda>w. w \<noteq> 0) row)"
proof -
  have "length (filter (\<lambda>j. row ! j \<noteq> 0) (top_idxs argsort row))
        + length (filter (\<lambda>j. \<not> row ! j \<noteq> 0) (top_idxs argsort row))
        = length (top_idxs argsort row)"
    by (rule sum_length_filter_compl)
  then show ?thesis
    using top_idxs_nonzero_count [OF assms] n by (simp add: length_top_idxs [OF ok])
qed

lemma take_terms_Inr:
  "take_terms terms js = Inr ts \<Longrightarrow>
   ts = map (\<lambda>j. terms ! j) js \<and> (\<forall>j \<in> set js. j < length terms)"
  by (induction js arbitrary: ts) (auto split: if_splits sum.splits)

lemma take_terms_ok:
  "\<forall>j \<in> set js. j < length terms \<Longrightarrow> take_terms terms js = Inr (map (\<lambda>j. terms ! j) js)"
  by (induction js) auto

lemma unique_rows_Inr:
  "unique_rows argsort terms tfidf (enumerate n sts) = Inr out \<Longrightarrow>
   map fst out = sts \<and>
   (\<forall>k < length sts. n + k < length tfidf \<and>
      take_terms terms (top_idxs argsort (tfidf ! (n + k))) = Inr (snd (out ! k)))"
proof (induction sts arbitrary: n out)
  case Nil
  then show ?case by simp
next
  case (Cons x xs)
  from Cons.prems obtain ts out' where
    n: "n < length tfidf" and
    t: "take_terms terms (top_idxs argsort (tfidf ! n)) = Inr ts" and
    r: "unique_rows argsort terms tfidf (enumerate (Suc n) xs) = Inr out'" and
    o: "out = (x, ts) # out'"
    by (auto split: if_splits sum.splits)
  note ih = Cons.IH [OF r]
  have "n + k < length tfidf \<and>
        take_terms terms (top_idxs argsort (tfidf ! (n + k))) = Inr (snd (out ! k))"
    if "k < length (x # xs)" for k
  proof (cases k)
    case 0
    with n t o show ?thesis by simp
  next
    case (Suc k')
    with that have "k' < length xs" by simp
    with ih have "Suc n + k' < length tfidf \<and>
        take_terms terms (top_idxs argsort (tfidf ! (Suc n + k'))) = Inr (snd (out' ! k'))"
      by blast
    with Suc o show ?thesis by simp
  qed
  with ih o show ?case by simp
qed

lemma unique_rows_ok:
  "\<forall>k < length sts. n + k < length tfidf \<and>
     (\<forall>j \<in> set (top_idxs argsort (tfidf ! (n + k))). j < length terms) \<Longrightarrow>
   unique_rows argsort terms tfidf (enumerate n sts)
   = Inr (map (\<lambda>(i, site). (site, map (\<lambda>j. terms ! j) (top_idxs argsort (tfidf ! i))))
              (enumerate n sts))"
proof (induction sts arbitrary: n)
  case Nil
  then show ?case by simp
next
  case (Cons x xs)
  from Cons.prems have n: "n < length tfidf"
    and t: "\<forall>j \<in> set (top_idxs argsort (tfidf ! n)). j < length terms"
    by force+
  have "\<forall>k < length xs. Suc n + k < length tfidf \<and>
          (\<forall>j \<in> set (top_idxs argsort (tfidf ! (Suc n + k))). j < length terms)"
  proof (intro allI impI)
    fix k assume "k < length xs"
    then have "Suc k < length (x # xs)" by simp
    with Cons.prems have "n + Suc k < length tfidf \<and>
          (\<forall>j \<in> set (top_idxs argsort (tfidf ! (n + Suc k))). j < length terms)"
      by blast
    then show "Suc n + k < length tfidf \<and>
          (\<forall>j \<in> set (top_idxs argsort (tfidf ! (Suc n + k))). j < length terms)"
      by simp
  qed
  from Cons.IH [OF this] n take_terms_ok [OF t] show ?case by simp
qed

lemma all_text_maps:
  "map snd (map (\<lambda>(site, text). (site, preprocess text)) workflows)
   = map (\<lambda>(site, text). preprocess text) workflows"
  "map fst (map (\<lambda>(site, text). (site, preprocess text)) workflows) = map fst workflows"
  by (induction workflows) auto

lemma find_unique_terms_Inr:
  assumes "find_unique_terms vect argsort workflows = Inr out"
  shows "\<exists>terms tfidf.
           vect (map (\<lambda>(site, text). preprocess text) workflows) = Inr (terms, tfidf) \<and>
           map fst out = map fst workflows \<and>
           (\<forall>i < length workflows. i < length tfidf \<and>
              snd (out ! i) = map (\<lambda>j. terms ! j) (top_idxs argsort (tfidf ! i)))"
proof -
  from assms obtain terms tfidf where
    v: "vect (map (\<lambda>(site, text). preprocess text) workflows) = Inr (terms, tfidf)" and
    u: "unique_rows argsort terms tfidf (enumerate 0 (map fst workflows)) = Inr out"
    unfolding find_unique_terms_def Let_def all_text_maps
    by (auto split: sum.splits)
  from unique_rows_Inr [OF u] have
    f: "map fst out = map fst workflows" and
    r: "\<forall>k < length workflows. k < length tfidf \<and>
          take_terms terms (top_idxs argsort (tfidf ! k)) = Inr (snd (out ! k))"
    by simp_all
  have "i < length tfidf \<and> snd (out ! i) = map (\<lambda>j. terms ! j) (top_idxs argsort (tfidf ! i))"
    if "i < length workflows" for i
    using r that take_terms_Inr [of terms "top_idxs argsort (tfidf ! i)" "snd (out ! i)"]
    by blast
  with v f show ?thesis by blast
qed

lemma find_unique_terms_total:
  assumes ok: "argsort_ok argsort"
    and v: "vect (map (\<lambda>(site, text). preprocess text) workflows) = Inr (terms, tfidf)"
    and rows: "length tfidf = length workflows"
    and cols: "\<forall>r \<in> set tfidf. length r = length terms"
  shows "find_unique_terms vect argsort workflows
         = Inr (map (\<lambda>(i, site). (site, map (\<lambda>j. terms ! j) (top_idxs argsort (tfidf ! i))))
                    (enumerate 0 (map fst workflows)))"
proof -
  have "\<forall>k < length (map fst workflows). 0 + k < length tfidf \<and>
          (\<forall>j \<in> set (top_idxs argsort (tfidf ! (0 + k))). j < length terms)"
  proof (intro allI impI)
    fix k assume "k < length (map fst workflows)"
    then have k: "k < length tfidf" using rows by simp
    then have "length (tfidf ! k) = length terms" using cols by simp
    with set_top_idxs [OF ok, of "tfidf ! k"] k
    show "0 + k < length tfidf \<and>
          (\<forall>j \<in> set (top_idxs argsort (tfidf ! (0 + k))). j < length terms)"
      by auto
  qed
  from unique_rows_ok [OF this] v show ?thesis
    unfolding find_unique_terms_def Let_def all_text_maps by simp
qed

lemma insertion_example:
  "find_unique_terms (\<lambda>texts. Inr ([''cream'', ''surgery''], [[1, 0], [0, 1]])) insertion_argsort
     [(''mayowf'', ''Cream''), (''wikiwf'', ''Surgery'')]
   = Inr [(''mayowf'', [''cream'', ''surgery'']), (''wikiwf'', [''surgery'', ''cream''])]"
  by (simp add: find_unique_terms_def top_idxs_def last_n_def insertion_argsort_def upt_rec
        enumerate_eq_zip)

lemma insertion_top_example:
  "top_idxs insertion_argsort [0, 1, 2, 3, 4, 5, 6, 7, 8, 9, 10] = [10, 9, 8, 7, 6, 5, 4, 3, 2, 1]"
  by (simp add: top_idxs_def last_n_def insertion_argsort_def upt_rec)

text \<open>
  C1, as stated, fails. The vectorizer below returns what the two documents give for a
  vocabulary of ten terms: the first source has one nonzero weight, the second nine.
  Whatever \<open>argsort\<close> does with equal weights, the list of either source has ten terms,
  not one and nine.
\<close>

theorem unique_terms_padded_to_ten:
  "\<not> (\<exists>argsort. argsort_ok argsort \<and>
         (case find_unique_terms
                 (\<lambda>texts. Inr ([''aspirin'', ''bandage'', ''cream'', ''dressing'', ''elevate'',
                                 ''fluids'', ''gauze'', ''heat'', ''ice'', ''juice''],
                                [[1, 0, 0, 0, 0, 0, 0, 0, 0, 0],
                                 [0, 1/3, 1/3, 1/3, 1/3, 1/3, 1/3, 1/3, 1/3, 1/3]]))
                 argsort
                 [(''mayowf'', ''Aspirin''),
                  (''wikiwf'', ''Bandage cream dressing elevate fluids gauze heat ice juice'')] of
            Inl e \<Rightarrow> []
          | Inr out \<Rightarrow> map (\<lambda>(site, ts). (site, length ts)) out)
         \<noteq> [(''mayowf'', 10), (''wikiwf'', 10)])
   \<and> length (filter (\<lambda>w. w \<noteq> 0) [1, 0, 0, 0, 0, 0, 0, 0, 0, 0 :: real]) = 1
   \<and> length (filter (\<lambda>w. w \<noteq> 0) [0, 1/3, 1/3, 1/3, 1/3, 1/3, 1/3, 1/3, 1/3, 1/3 :: real]) = 9"
proof -
  let ?terms = "[''aspirin'', ''bandage'', ''cream'', ''dressing'', ''elevate'',
                 ''fluids'', ''gauze'', ''heat'', ''ice'', ''juice'']"
  let ?r0 = "[1, 0, 0, 0, 0, 0, 0, 0, 0, 0 :: real]"
  let ?r1 = "[0, 1/3, 1/3, 1/3, 1/3, 1/3, 1/3, 1/3, 1/3, 1/3 :: real]"
  let ?v = "\<lambda>texts :: string list.
              (Inr (?terms, [?r0, ?r1]) :: error + string list \<times> real list list)"
  let ?w = "[(''mayowf'', ''Aspirin''),
             (''wikiwf'', ''Bandage cream dressing elevate fluids gauze heat ice juice'')]"
  have a: "(case find_unique_terms ?v argsort ?w of
              Inl e \<Rightarrow> []
            | Inr out \<Rightarrow> map (\<lambda>(site, ts). (site, length ts)) out)
           = [(''mayowf'', 10), (''wikiwf'', 10)]"
    if ok: "argsort_ok argsort" for argsort
  proof -
    have "find_unique_terms ?v argsort ?w
          = Inr (map (\<lambda>(i, site). (site, map (\<lambda>j. ?terms ! j) (top_idxs argsort ([?r0, ?r1] ! i))))
                     (enumerate 0 (map fst ?w)))"
      by (rule find_unique_terms_total [OF ok]) simp_all
    then show ?thesis
      using length_top_idxs [OF ok, of ?r0] length_top_idxs [OF ok, of ?r1] by simp
  qed
  have b: "length (filter (\<lambda>w. w \<noteq> 0) ?r0) = 1" by simp
  have c: "length (filter (\<lambda>w. w \<noteq> 0) ?r1) = 9" by simp
  show ?thesis using a b c by blast
qed

text \<open>
  C1, amended. The list returned for a source has as many terms as its row has entries,
  and ten when the row has more than ten; the number of nonzero entries plays no part,
  and for a matrix with a row for every source and a weight for every term a list is
  returned. The list holds the terms at the selected indices, in their order. When
  fewer than ten entries of a row of at least ten are nonzero (and none is negative),
  every term of nonzero weight is selected, and the list is filled up to ten with terms
  of weight zero: their number is ten less the number of nonzero entries.
\<close>

theorem unique_terms_length:
  "argsort_ok argsort \<longrightarrow>
     (find_unique_terms vect argsort workflows = Inr out \<longrightarrow>
        (\<exists>terms tfidf.
           vect (map (\<lambda>(site, text). preprocess text) workflows) = Inr (terms, tfidf) \<and>
           map fst out = map fst workflows \<and>
           (\<forall>i < length workflows.
              i < length tfidf \<and>
              snd (out ! i) = map (\<lambda>j. terms ! j) (top_idxs argsort (tfidf ! i)) \<and>
              length (snd (out ! i)) = min 10 (length (tfidf ! i)))))
     \<and> (vect (map (\<lambda>(site, text). preprocess text) workflows) = Inr (vocabulary, weights) \<and>
         length weights = length workflows \<and>
         (\<forall>r \<in> set weights. length r = length vocabulary) \<longrightarrow>
           (\<exists>result. find_unique_terms vect argsort workflows = Inr result))
     \<and> length (top_idxs argsort row) = min 10 (length row)
     \<and> ((\<forall>w \<in> set row. 0 \<le> w) \<and> length (filter (\<lambda>w. w \<noteq> 0) row) < 10 \<and>
         10 \<le> length row \<longrightarrow>
           (\<forall>j < length row. row ! j \<noteq> 0 \<longrightarrow> j \<in> set (top_idxs argsort row)) \<and>
           length (filter (\<lambda>j. row ! j \<noteq> 0) (top_idxs argsort row))
             = length (filter (\<lambda>w. w \<noteq> 0) row) \<and>
           length (filter (\<lambda>j. row ! j = 0) (top_idxs argsort row))
             = 10 - length (filter (\<lambda>w. w \<noteq> 0) row))"
proof
  assume ok: "argsort_ok argsort"
  have a: "\<exists>terms tfidf.
           vect (map (\<lambda>(site, text). preprocess text) workflows) = Inr (terms, tfidf) \<and>
           map fst out = map fst workflows \<and>
           (\<forall>i < length workflows.
              i < length tfidf \<and>
              snd (out ! i) = map (\<lambda>j. terms ! j) (top_idxs argsort (tfidf ! i)) \<and>
              length (snd (out ! i)) = min 10 (length (tfidf ! i)))"
    if "find_unique_terms vect argsort workflows = Inr out"
  proof -
    from find_unique_terms_Inr [OF that] obtain terms tfidf where
      v: "vect (map (\<lambda>(site, text). preprocess text) workflows) = Inr (terms, tfidf)" and
      f: "map fst out = map fst workflows" and
      r: "\<forall>i < length workflows. i < length tfidf \<and>
            snd (out ! i) = map (\<lambda>j. terms ! j) (top_idxs argsort (tfidf ! i))"
      by blast
    have "\<forall>i < length workflows.
              i < length tfidf \<and>
              snd (out ! i) = map (\<lambda>j. terms ! j) (top_idxs argsort (tfidf ! i)) \<and>
              length (snd (out ! i)) = min 10 (length (tfidf ! i))"
      using r by (simp add: length_top_idxs [OF ok])
    with v f show ?thesis by blast
  qed
  have b: "\<exists>result. find_unique_terms vect argsort workflows = Inr result"
    if "vect (map (\<lambda>(site, text). preprocess text) workflows) = Inr (vocabulary, weights)"
       "length weights = length workflows" "\<forall>r \<in> set weights. length r = length vocabulary"
    using find_unique_terms_total [of argsort vect workflows vocabulary weights] ok that
    by blast
  have c: "length (top_idxs argsort row) = min 10 (length row)"
    by (rule length_top_idxs [OF ok])
  have d: "(\<forall>j < length row. row ! j \<noteq> 0 \<longrightarrow> j \<in> set (top_idxs argsort row)) \<and>
           length (filter (\<lambda>j. row ! j \<noteq> 0) (top_idxs argsort row))
             = length (filter (\<lambda>w. w \<noteq> 0) row) \<and>
           length (filter (\<lambda>j. row ! j = 0) (top_idxs argsort row))
             = 10 - length (filter (\<lambda>w. w \<noteq> 0) row)"
    if "\<forall>w \<in> set row. 0 \<le> w" "length (filter (\<lambda>w. w \<noteq> 0) row) < 10" "10 \<le> length row"
    using top_idxs_holds_nonzero [OF ok that] top_idxs_nonzero_count [OF ok that]
      top_idxs_zero_count [OF ok that]
    by blast
  show "(find_unique_terms vect argsort workflows = Inr out \<longrightarrow>
        (\<exists>terms tfidf.
           vect (map (\<lambda>(site, text). preprocess text) workflows) = Inr (terms, tfidf) \<and>
           map fst out = map fst workflows \<and>
           (\<forall>i < length workflows.
              i < length tfidf \<and>
              snd (out ! i) = map (\<lambda>j. terms ! j) (top_idxs argsort (tfidf ! i)) \<and>
              length (snd (out ! i)) = min 10 (length (tfidf ! i)))))
     \<and> (vect (map (\<lambda>(site, text). preprocess text) workflows) = Inr (vocabulary, weights) \<and>
         length weights = length workflows \<and>
         (\<forall>r \<in> set weights. length r = length vocabulary) \<longrightarrow>
           (\<exists>result. find_unique_terms vect argsort workflows = Inr result))
     \<and> length (top_idxs argsort row) = min 10 (length row)
     \<and> ((\<forall>w \<in> set row. 0 \<le> w) \<and> length (filter (\<lambda>w. w \<noteq> 0) row) < 10 \<and>
         10 \<le> length row \<longrightarrow>
           (\<forall>j < length row. row ! j \<noteq> 0 \<longrightarrow> j \<in> set (top_idxs argsort row)) \<and>
           length (filter (\<lambda>j. row ! j \<noteq> 0) (top_idxs argsort row))
             = length (filter (\<lambda>w. w \<noteq> 0) row) \<and>
           length (filter (\<lambda>j. row ! j = 0) (top_idxs argsort row))
             = 10 - length (filter (\<lambda>w. w \<noteq> 0) row))"
    using a b c d by blast
qed

theorem unique_terms_length_witness:
  "argsort_ok insertion_argsort
   \<and> find_unique_terms (\<lambda>texts. Inr ([''cream'', ''surgery''], [[1, 0], [0, 1]])) insertion_argsort
       [(''mayowf'', ''Cream''), (''wikiwf'', ''Surgery'')]
     = Inr [(''mayowf'', [''cream'', ''surgery'']), (''wikiwf'', [''surgery'', ''cream''])]
   \<and> length [(''mayowf'', ''Cream''), (''wikiwf'', ''Surgery'')] = length [[1, 0], [0, 1 :: real]]
   \<and> length (top_idxs insertion_argsort [1, 0, 0, 0, 0, 0, 0, 0, 0, 0]) = 10
   \<and> length (filter (\<lambda>w. w \<noteq> 0) [1, 0, 0, 0, 0, 0, 0, 0, 0, 0 :: real]) < 10
   \<and> 10 \<le> length [1, 0, 0, 0, 0, 0, 0, 0, 0, 0 :: real]
   \<and> 0 \<in> set (top_idxs insertion_argsort [1, 0, 0, 0, 0, 0, 0, 0, 0, 0])
   \<and> length (filter (\<lambda>j. [1, 0, 0, 0, 0, 0, 0, 0, 0, 0 :: real] ! j = 0)
               (top_idxs insertion_argsort [1, 0, 0, 0, 0, 0, 0, 0, 0, 0])) = 9"
proof -
  let ?v = "\<lambda>texts :: string list.
              (Inr ([''cream'', ''surgery''], [[1, 0], [0, 1]])
               :: error + string list \<times> real list list)"
  let ?w = "[(''mayowf'', ''Cream''), (''wikiwf'', ''Surgery'')]"
  let ?out = "[(''mayowf'', [''cream'', ''surgery'']), (''wikiwf'', [''surgery'', ''cream''])]"
  let ?row = "[1, 0, 0, 0, 0, 0, 0, 0, 0, 0 :: real]"
  have h0: "argsort_ok insertion_argsort" by (rule insertion_argsort_ok)
  have h1: "find_unique_terms ?v insertion_argsort ?w = Inr ?out" by (rule insertion_example)
  have h2: "length ?w = length [[1, 0], [0, 1 :: real]]" by simp
  have h3: "(\<forall>w \<in> set ?row. 0 \<le> w) \<and> length (filter (\<lambda>w. w \<noteq> 0) ?row) < 10 \<and>
            10 \<le> length ?row"
    by simp
  have h4: "(0::nat) < length ?row \<and> ?row ! 0 \<noteq> 0" by simp
  note t = unique_terms_length
             [of insertion_argsort ?v ?w ?out "[''cream'', ''surgery'']" "[[1, 0], [0, 1]]" ?row]
  have c1: "length (top_idxs insertion_argsort ?row) = min 10 (length ?row)"
    using t h0 by blast
  have c2: "0 \<in> set (top_idxs insertion_argsort ?row)"
    using t h0 h3 h4 by blast
  have c3: "length (filter (\<lambda>j. ?row ! j = 0) (top_idxs insertion_argsort ?row))
            = 10 - length (filter (\<lambda>w. w \<noteq> 0) ?row)"
    using t h0 h3 by blast
  have e1: "min 10 (length ?row) = 10" by simp
  have e2: "10 - length (filter (\<lambda>w. w \<noteq> 0) ?row) = 9" by simp
  show ?thesis using h0 h1 h2 h3 c1 c2 c3 e1 e2 by (simp only: simp_thms)
qed

text \<open>
  C7, as stated, fails. Four terms have the same weight in the first source, and four
  the weight zero in the second. The claim requires them in the order of the vocabulary.
  \<open>find_unique_terms\<close> does nothing about equal weights: it takes the order that
  \<open>argsort\<close> gives, reversed, and not every sort of the indices gives the required
  lists; the insertion sort, which keeps equal weights in index order, gives the four
  terms from the last to the first.
\<close>

theorem ties_not_by_vocabulary_order:
  "\<not> (\<forall>argsort. argsort_ok argsort \<longrightarrow>
         find_unique_terms
           (\<lambda>texts. Inr ([''cream'', ''gel'', ''lotion'', ''ointment'', ''surgery''],
                          [[1/2, 1/2, 1/2, 1/2, 0], [0, 0, 0, 0, 1]]))
           argsort
           [(''mayowf'', ''Cream gel lotion ointment''), (''wikiwf'', ''Surgery'')]
         = Inr [(''mayowf'', [''cream'', ''gel'', ''lotion'', ''ointment'', ''surgery'']),
                (''wikiwf'', [''surgery'', ''cream'', ''gel'', ''lotion'', ''ointment''])])"
proof
  assume "\<forall>argsort. argsort_ok argsort \<longrightarrow>
         find_unique_terms
           (\<lambda>texts. Inr ([''cream'', ''gel'', ''lotion'', ''ointment'', ''surgery''],
                          [[1/2, 1/2, 1/2, 1/2, 0], [0, 0, 0, 0, 1]]))
           argsort
           [(''mayowf'', ''Cream gel lotion ointment''), (''wikiwf'', ''Surgery'')]
         = Inr [(''mayowf'', [''cream'', ''gel'', ''lotion'', ''ointment'', ''surgery'']),
                (''wikiwf'', [''surgery'', ''cream'', ''gel'', ''lotion'', ''ointment''])]"
  then have "find_unique_terms
           (\<lambda>texts. Inr ([''cream'', ''gel'', ''lotion'', ''ointment'', ''surgery''],
                          [[1/2, 1/2, 1/2, 1/2, 0], [0, 0, 0, 0, 1]]))
           insertion_argsort
           [(''mayowf'', ''Cream gel lotion ointment''), (''wikiwf'', ''Surgery'')]
         = Inr [(''mayowf'', [''cream'', ''gel'', ''lotion'', ''ointment'', ''surgery'']),
                (''wikiwf'', [''surgery'', ''cream'', ''gel'', ''lotion'', ''ointment''])]"
    using insertion_argsort_ok by blast
  then show False
    by (simp add: find_unique_terms_def top_idxs_def last_n_def insertion_argsort_def upt_rec
          enumerate_eq_zip)
qed

text \<open>
  C7, amended. The list of a source holds the terms at the selected indices of its row.
  These are ten indices of the row (all, when it has fewer), each once; the weights along
  them descend, so a term of greater weight stands before a term of smaller weight; and
  no index left out has a greater weight than a selected one. Nothing more holds of
  terms of equal weight: their order, and at the cut-off their selection, is that of
  \<open>argsort\<close>.
\<close>

theorem top_idxs_order:
  "argsort_ok argsort \<longrightarrow>
     (find_unique_terms vect argsort workflows = Inr out \<longrightarrow>
        (\<exists>terms tfidf.
           vect (map (\<lambda>(site, text). preprocess text) workflows) = Inr (terms, tfidf) \<and>
           (\<forall>i < length workflows.
              out ! i = (fst (workflows ! i),
                         map (\<lambda>j. terms ! j) (top_idxs argsort (tfidf ! i))))))
     \<and> length (top_idxs argsort row) = min 10 (length row)
     \<and> distinct (top_idxs argsort row)
     \<and> set (top_idxs argsort row) \<subseteq> {..<length row}
     \<and> sorted_wrt (\<lambda>i j. row ! j \<le> row ! i) (top_idxs argsort row)
     \<and> (\<forall>i \<in> set (top_idxs argsort row). \<forall>j < length row.
           j \<notin> set (top_idxs argsort row) \<longrightarrow> row ! j \<le> row ! i)"
proof
  assume ok: "argsort_ok argsort"
  have a: "\<exists>terms tfidf.
           vect (map (\<lambda>(site, text). preprocess text) workflows) = Inr (terms, tfidf) \<and>
           (\<forall>i < length workflows.
              out ! i = (fst (workflows ! i),
                         map (\<lambda>j. terms ! j) (top_idxs argsort (tfidf ! i))))"
    if "find_unique_terms vect argsort workflows = Inr out"
  proof -
    from find_unique_terms_Inr [OF that] obtain terms tfidf where
      v: "vect (map (\<lambda>(site, text). preprocess text) workflows) = Inr (terms, tfidf)" and
      f: "map fst out = map fst workflows" and
      r: "\<forall>i < length workflows. i < length tfidf \<and>
            snd (out ! i) = map (\<lambda>j. terms ! j) (top_idxs argsort (tfidf ! i))"
      by blast
    have l: "length out = length workflows" using f by (metis length_map)
    have "out ! i = (fst (workflows ! i), map (\<lambda>j. terms ! j) (top_idxs argsort (tfidf ! i)))"
      if i: "i < length workflows" for i
    proof -
      have "fst (out ! i) = fst (workflows ! i)"
        using f i l by (metis nth_map)
      with r i show ?thesis by (simp add: prod_eq_iff)
    qed
    with v show ?thesis by blast
  qed
  show "(find_unique_terms vect argsort workflows = Inr out \<longrightarrow>
        (\<exists>terms tfidf.
           vect (map (\<lambda>(site, text). preprocess text) workflows) = Inr (terms, tfidf) \<and>
           (\<forall>i < length workflows.
              out ! i = (fst (workflows ! i),
                         map (\<lambda>j. terms ! j) (top_idxs argsort (tfidf ! i))))))
     \<and> length (top_idxs argsort row) = min 10 (length row)
     \<and> distinct (top_idxs argsort row)
     \<and> set (top_idxs argsort row) \<subseteq> {..<length row}
     \<and> sorted_wrt (\<lambda>i j. row ! j \<le> row ! i) (top_idxs argsort row)
     \<and> (\<forall>i \<in> set (top_idxs argsort row). \<forall>j < length row.
           j \<notin> set (top_idxs argsort row) \<longrightarrow> row ! j \<le> row ! i)"
    using a length_top_idxs [OF ok] distinct_top_idxs [OF ok] set_top_idxs [OF ok]
      top_idxs_sorted [OF ok] top_idxs_highest [OF ok]
    by blast
qed

theorem top_idxs_order_witness:
  "argsort_ok insertion_argsort
   \<and> find_unique_terms (\<lambda>texts. Inr ([''cream'', ''surgery''], [[1, 0], [0, 1]])) insertion_argsort
       [(''mayowf'', ''Cream''), (''wikiwf'', ''Surgery'')]
     = Inr [(''mayowf'', [''cream'', ''surgery'']), (''wikiwf'', [''surgery'', ''cream''])]
   \<and> (\<exists>terms tfidf.
         (Inr ([''cream'', ''surgery''], [[1, 0], [0, 1]]) :: error + string list \<times> real list list)
           = Inr (terms, tfidf) \<and>
         (\<forall>i < length [(''mayowf'', ''Cream''), (''wikiwf'', ''Surgery'')].
            [(''mayowf'', [''cream'', ''surgery'']), (''wikiwf'', [''surgery'', ''cream''])] ! i
            = (fst ([(''mayowf'', ''Cream''), (''wikiwf'', ''Surgery'')] ! i),
               map (\<lambda>j. terms ! j) (top_idxs insertion_argsort (tfidf ! i)))))
   \<and> top_idxs insertion_argsort [0, 1, 2, 3, 4, 5, 6, 7, 8, 9, 10]
       = [10, 9, 8, 7, 6, 5, 4, 3, 2, 1]
   \<and> sorted_wrt (\<lambda>i j. [0, 1, 2, 3, 4, 5, 6, 7, 8, 9, 10 :: real] ! j
                         \<le> [0, 1, 2, 3, 4, 5, 6, 7, 8, 9, 10] ! i)
        (top_idxs insertion_argsort [0, 1, 2, 3, 4, 5, 6, 7, 8, 9, 10])
   \<and> 10 \<in> set (top_idxs insertion_argsort [0, 1, 2, 3, 4, 5, 6, 7, 8, 9, 10])
   \<and> 0 < length [0, 1, 2, 3, 4, 5, 6, 7, 8, 9, 10 :: real]
   \<and> 0 \<notin> set (top_idxs insertion_argsort [0, 1, 2, 3, 4, 5, 6, 7, 8, 9, 10])
   \<and> [0, 1, 2, 3, 4, 5, 6, 7, 8, 9, 10 :: real] ! 0 \<le> [0, 1, 2, 3, 4, 5, 6, 7, 8, 9, 10] ! 10"
proof -
  let ?v = "\<lambda>texts :: string list.
              (Inr ([''cream'', ''surgery''], [[1, 0], [0, 1]])
               :: error + string list \<times> real list list)"
  let ?w = "[(''mayowf'', ''Cream''), (''wikiwf'', ''Surgery'')]"
  let ?out = "[(''mayowf'', [''cream'', ''surgery'']), (''wikiwf'', [''surgery'', ''cream''])]"
  let ?row = "[0, 1, 2, 3, 4, 5, 6, 7, 8, 9, 10 :: real]"
  have h0: "argsort_ok insertion_argsort" by (rule insertion_argsort_ok)
  have h1: "find_unique_terms ?v insertion_argsort ?w = Inr ?out" by (rule insertion_example)
  have h2: "top_idxs insertion_argsort ?row = [10, 9, 8, 7, 6, 5, 4, 3, 2, 1]"
    by (rule insertion_top_example)
  have h3: "10 \<in> set (top_idxs insertion_argsort ?row)" by (simp add: h2)
  have h4: "0 < length ?row" by simp
  have h5: "0 \<notin> set (top_idxs insertion_argsort ?row)" by (simp add: h2)
  note t = top_idxs_order [of insertion_argsort ?v ?w ?out ?row]
  have c1: "\<exists>terms tfidf.
         (Inr ([''cream'', ''surgery''], [[1, 0], [0, 1]]) :: error + string list \<times> real list list)
           = Inr (terms, tfidf) \<and>
         (\<forall>i < length ?w.
            ?out ! i = (fst (?w ! i), map (\<lambda>j. terms ! j) (top_idxs insertion_argsort (tfidf ! i))))"
    using t h0 h1 by blast
  have c2: "sorted_wrt (\<lambda>i j. ?row ! j \<le> ?row ! i) (top_idxs insertion_argsort ?row)"
    using t h0 by blast
  have c3: "?row ! 0 \<le> ?row ! 10"
    using t h0 h3 h4 h5 by blast
  show ?thesis using h0 h1 h2 h3 h4 h5 c1 c2 c3 by (simp only: simp_thms)
qed

section \<open>Properties of the Corpus Loader\<close>

lemma lazy_group_Some:
  "lazy_group s = Some (d, r) \<Longrightarrow> s = d @ CHR ''_'' # r \<and> NL \<notin> set d \<and> CHR ''_'' \<notin> set d"
  by (induction s arbitrary: d) (auto split: if_splits option.splits)

lemma lazy_group_found: "NL \<notin> set d \<Longrightarrow> lazy_group (d @ CHR ''_'' # post) \<noteq> None"
  by (induction d) (auto split: option.splits)

lemma lazy_group_exact:
  "NL \<notin> set d \<Longrightarrow> CHR ''_'' \<notin> set d \<Longrightarrow> lazy_group (d @ CHR ''_'' # post) = Some (d, post)"
  by (induction d) auto

lemma match_wf_Some:
  assumes "match_wf s = Some (d, r)"
  shows "s = ''wf_'' @ d @ CHR ''_'' # r \<and> NL \<notin> set d"
proof -
  from assms have sw: "starts_with ''wf_'' s" and lg: "lazy_group (drop 3 s) = Some (d, r)"
    by (auto simp: match_wf_def split: if_splits)
  from sw obtain post where p: "s = ''wf_'' @ post" by (auto simp: starts_with_iff)
  then have "drop 3 s = post" by simp
  with lg lazy_group_Some [of post d r] p show ?thesis by simp
qed

lemma match_wf_prefix: "match_wf (''wf_'' @ rest) = lazy_group rest"
  by (simp add: match_wf_def)

lemma findall_wf_occurrence:
  "findall_wf s \<noteq> [] \<Longrightarrow>
   \<exists>pre d post. s = pre @ ''wf_'' @ d @ CHR ''_'' # post \<and> NL \<notin> set d"
proof (induction s rule: findall_wf.induct)
  case 1
  then show ?case by simp
next
  case (2 c cs)
  show ?case
  proof (cases "match_wf (c # cs)")
    case None
    with 2 obtain pre d post where "cs = pre @ ''wf_'' @ d @ CHR ''_'' # post" "NL \<notin> set d"
      by auto
    then have "c # cs = (c # pre) @ ''wf_'' @ d @ CHR ''_'' # post \<and> NL \<notin> set d" by simp
    then show ?thesis by blast
  next
    case (Some a)
    obtain d r where "a = (d, r)" by (cases a)
    with Some match_wf_Some [of "c # cs" d r]
    have "c # cs = [] @ ''wf_'' @ d @ CHR ''_'' # r \<and> NL \<notin> set d" by simp
    then show ?thesis by blast
  qed
qed

lemma occurrence_findall_wf:
  "NL \<notin> set d \<Longrightarrow> findall_wf (pre @ ''wf_'' @ d @ CHR ''_'' # post) \<noteq> []"
proof (induction pre)
  case Nil
  have "match_wf (''wf_'' @ d @ CHR ''_'' # post) \<noteq> None"
    unfolding match_wf_prefix using Nil by (rule lazy_group_found)
  then obtain a where a: "match_wf (''wf_'' @ d @ CHR ''_'' # post) = Some a" by auto
  obtain d' r where "a = (d', r)" by (cases a)
  with a show ?case by simp
next
  case (Cons c pre)
  then show ?case by (cases "match_wf (c # pre @ ''wf_'' @ d @ CHR ''_'' # post)") auto
qed

lemma disease_of_IndexError_iff:
  "disease_of name = Inl IndexError \<longleftrightarrow>
   \<not> (\<exists>pre d post. name = pre @ ''wf_'' @ d @ CHR ''_'' # post \<and> NL \<notin> set d)"
proof -
  have "disease_of name = Inl IndexError \<longleftrightarrow> findall_wf name = []"
    by (simp add: disease_of_def split: list.splits)
  also have "\<dots> \<longleftrightarrow> \<not> (\<exists>pre d post. name = pre @ ''wf_'' @ d @ CHR ''_'' # post \<and> NL \<notin> set d)"
    using findall_wf_occurrence [of name] occurrence_findall_wf by blast
  finally show ?thesis .
qed

lemma disease_of_error: "disease_of name = Inl e \<Longrightarrow> e = IndexError"
  by (auto simp: disease_of_def split: list.splits)

lemma disease_of_prefix:
  assumes "NL \<notin> set d" "CHR ''_'' \<notin> set d"
  shows "disease_of (''wf_'' @ d @ CHR ''_'' # post) = Inr d"
proof -
  have "match_wf (''wf_'' @ d @ CHR ''_'' # post) = Some (d, post)"
    unfolding match_wf_prefix by (rule lazy_group_exact [OF assms])
  then have "findall_wf (''wf_'' @ d @ CHR ''_'' # post) = d # findall_wf post" by simp
  then show ?thesis by (simp add: disease_of_def)
qed

lemma load_files_bad:
  "f \<in> set fs \<Longrightarrow> isl (snd f) \<or> disease_of (fst f) = Inl IndexError \<Longrightarrow>
   \<exists>e. load_files folder fs data = Inl e"
proof (induction fs arbitrary: data)
  case Nil
  then show ?case by simp
next
  case (Cons g fs)
  obtain n c where g: "g = (n, c)" by (cases g)
  show ?case
  proof (cases c)
    case (Inl e)
    with g show ?thesis by simp
  next
    case (Inr t)
    show ?thesis
    proof (cases "disease_of n")
      case (Inl e')
      with Inr g show ?thesis by simp
    next
      case d: (Inr d0)
      have "f \<noteq> g" using Cons.prems(2) g Inr d by auto
      with Cons.prems have "f \<in> set fs" by simp
      from Cons.IH [OF this Cons.prems(2)] g Inr d show ?thesis by simp
    qed
  qed
qed

lemma load_files_good:
  "\<forall>f \<in> set fs. \<not> isl (snd f) \<and> disease_of (fst f) \<noteq> Inl IndexError \<Longrightarrow>
   \<exists>data'. load_files folder fs data = Inr data'"
proof (induction fs arbitrary: data)
  case Nil
  then show ?case by simp
next
  case (Cons g fs)
  obtain n c where g: "g = (n, c)" by (cases g)
  from Cons.prems g obtain t where c: "c = Inr t" by (cases c) auto
  from Cons.prems g obtain d0 where d: "disease_of n = Inr d0"
    by (cases "disease_of n") (auto dest: disease_of_error)
  from Cons.prems have "\<forall>f \<in> set fs. \<not> isl (snd f) \<and> disease_of (fst f) \<noteq> Inl IndexError"
    by simp
  from Cons.IH [OF this] g c d show ?case by simp
qed

lemma load_files_error_iff:
  "(\<exists>e. load_files folder fs data = Inl e) \<longleftrightarrow>
   (\<exists>f \<in> set fs. isl (snd f) \<or> disease_of (fst f) = Inl IndexError)"
proof
  assume "\<exists>e. load_files folder fs data = Inl e"
  show "\<exists>f \<in> set fs. isl (snd f) \<or> disease_of (fst f) = Inl IndexError"
  proof (rule ccontr)
    assume "\<not> (\<exists>f \<in> set fs. isl (snd f) \<or> disease_of (fst f) = Inl IndexError)"
    then have "\<forall>f \<in> set fs. \<not> isl (snd f) \<and> disease_of (fst f) \<noteq> Inl IndexError" by simp
    then have "\<exists>data'. load_files folder fs data = Inr data'" by (rule load_files_good)
    with \<open>\<exists>e. load_files folder fs data = Inl e\<close> show False by auto
  qed
next
  assume "\<exists>f \<in> set fs. isl (snd f) \<or> disease_of (fst f) = Inl IndexError"
  then obtain f where "f \<in> set fs" "isl (snd f) \<or> disease_of (fst f) = Inl IndexError"
    by blast
  then show "\<exists>e. load_files folder fs data = Inl e" by (rule load_files_bad)
qed

lemma load_files_IndexError:
  "\<forall>f \<in> set fs. \<not> isl (snd f) \<Longrightarrow> load_files folder fs data = Inl e \<Longrightarrow> e = IndexError"
proof (induction fs arbitrary: data)
  case Nil
  then show ?case by simp
next
  case (Cons g fs)
  obtain n c where g: "g = (n, c)" by (cases g)
  from Cons.prems(1) g obtain t where c: "c = Inr t" by (cases c) auto
  show ?case
  proof (cases "disease_of n")
    case (Inl e')
    then have "e' = IndexError" by (rule disease_of_error)
    with Inl Cons.prems(2) g c show ?thesis by simp
  next
    case (Inr d0)
    from Cons.prems(1) have r: "\<forall>f \<in> set fs. \<not> isl (snd f)" by simp
    from Cons.prems(2) g c Inr
    have "load_files folder fs (set_entry d0 folder t data) = Inl e" by simp
    from Cons.IH [OF r this] show ?thesis .
  qed
qed

lemma load_folders_error_iff:
  "(\<exists>e. load_folders rt folders data = Inl e) \<longleftrightarrow>
   (\<exists>folder \<in> set folders. \<exists>fs. rt folder = Some fs \<and>
      (\<exists>f \<in> set fs. isl (snd f) \<or> disease_of (fst f) = Inl IndexError))"
proof (induction folders arbitrary: data)
  case Nil
  then show ?case by simp
next
  case (Cons g folders)
  show ?case
  proof (cases "rt g")
    case None
    with Cons show ?thesis by simp
  next
    case (Some fs)
    show ?thesis
    proof (cases "load_files g fs data")
      case (Inl e)
      then have "\<exists>f \<in> set fs. isl (snd f) \<or> disease_of (fst f) = Inl IndexError"
        using load_files_error_iff [of g fs data] by blast
      with Inl Some show ?thesis by auto
    next
      case (Inr data')
      then have "\<not> (\<exists>f \<in> set fs. isl (snd f) \<or> disease_of (fst f) = Inl IndexError)"
        using load_files_error_iff [of g fs data] by auto
      with Inr Some Cons [of data'] show ?thesis by auto
    qed
  qed
qed

lemma load_folders_IndexError:
  "\<forall>folder \<in> set folders. \<forall>fs. rt folder = Some fs \<longrightarrow> (\<forall>f \<in> set fs. \<not> isl (snd f)) \<Longrightarrow>
   load_folders rt folders data = Inl e \<Longrightarrow> e = IndexError"
proof (induction folders arbitrary: data)
  case Nil
  then show ?case by simp
next
  case (Cons g folders)
  from Cons.prems(1) have rest:
    "\<forall>folder \<in> set folders. \<forall>fs. rt folder = Some fs \<longrightarrow> (\<forall>f \<in> set fs. \<not> isl (snd f))"
    by simp
  show ?case
  proof (cases "rt g")
    case None
    with Cons.prems(2) have "load_folders rt folders data = Inl e" by simp
    from Cons.IH [OF rest this] show ?thesis .
  next
    case (Some fs)
    with Cons.prems(1) have r: "\<forall>f \<in> set fs. \<not> isl (snd f)" by simp
    show ?thesis
    proof (cases "load_files g fs data")
      case (Inl e')
      with Cons.prems(2) Some have "e' = e" by simp
      with Inl load_files_IndexError [OF r] show ?thesis by blast
    next
      case (Inr data')
      with Cons.prems(2) Some have "load_folders rt folders data' = Inl e" by simp
      from Cons.IH [OF rest this] show ?thesis .
    qed
  qed
qed

lemma load_workflows_error_iff:
  "(\<exists>e. load_workflows rt = Inl e) \<longleftrightarrow> malformed_file rt \<or> unreadable_file rt"
  unfolding load_workflows_def load_folders_error_iff malformed_file_def unreadable_file_def
  by blast

lemma load_workflows_IndexError:
  "\<not> unreadable_file rt \<Longrightarrow> load_workflows rt = Inl e \<Longrightarrow> e = IndexError"
proof -
  assume u: "\<not> unreadable_file rt" and l: "load_workflows rt = Inl e"
  have "\<forall>folder \<in> set WF_FOLDERS. \<forall>fs. rt folder = Some fs \<longrightarrow> (\<forall>f \<in> set fs. \<not> isl (snd f))"
    using u by (auto simp: unreadable_file_def)
  from load_folders_IndexError [OF this] l show ?thesis by (simp add: load_workflows_def)
qed

text \<open>
  C5, as stated, fails. A name with no match of the pattern ends the whole load with
  \<open>IndexError\<close>, the error of indexing the empty list of matches: no descriptive error
  names the file, and the well-formed files of the same and of the later folder are not
  loaded. A name that lacks the prefix but holds the pattern further on is keyed by that
  match.
\<close>

theorem malformed_filename_aborts_load:
  "load_workflows
     ((\<lambda>folder. None)
        (''mayowf'' := Some [(''notes.txt'', Inr ''Rest''), (''wf_gerd_mayo.txt'', Inr ''1. Diet'')],
         ''wikiwf'' := Some [(''wf_gerd_wiki.txt'', Inr ''1. Diet'')]))
   = Inl IndexError
   \<and> disease_of ''old_wf_gerd_mayo.txt'' = Inr ''gerd''"
  by code_simp

text \<open>
  C5, amended. The disease of a file name is not found exactly when no part of the name
  matches \<open>wf_(.*?)_\<close>. A listed file with such a name makes the load fail, for every
  file of every folder: no data is returned. The error is \<open>IndexError\<close> when every listed
  file can be read; a file that cannot be read raises the error of the reading, before
  its name is looked at. A name that starts with \<open>wf_\<close>, a disease without underscore or
  newline, and \<open>_\<close> is keyed by that disease. The load fails exactly when some listed
  file of a source folder has a name without a match or cannot be read.
\<close>

theorem malformed_filename_IndexError:
  "(disease_of name = Inl IndexError \<longleftrightarrow>
      \<not> (\<exists>pre d post. name = pre @ ''wf_'' @ d @ CHR ''_'' # post \<and> NL \<notin> set d))
   \<and> (disease_of name = Inl IndexError \<and> folder \<in> set WF_FOLDERS \<and> rt folder = Some fs \<and>
       (name, content) \<in> set fs \<longrightarrow>
         (\<exists>e. load_workflows rt = Inl e) \<and>
         (\<not> unreadable_file rt \<longrightarrow> load_workflows rt = Inl IndexError))
   \<and> (NL \<notin> set d \<and> CHR ''_'' \<notin> set d \<longrightarrow> disease_of (''wf_'' @ d @ CHR ''_'' # post) = Inr d)
   \<and> ((\<exists>e. load_workflows rt = Inl e) \<longleftrightarrow> malformed_file rt \<or> unreadable_file rt)
   \<and> load_workflows
       ((\<lambda>folder. None)
          (''mayowf'' := Some [(''wf_gerd_mayo.txt'', Inl UnicodeDecodeError),
                               (''notes.txt'', Inr ''Rest'')]))
     = Inl UnicodeDecodeError"
proof -
  have b: "(\<exists>e. load_workflows rt = Inl e) \<and>
           (\<not> unreadable_file rt \<longrightarrow> load_workflows rt = Inl IndexError)"
    if "disease_of name = Inl IndexError" "folder \<in> set WF_FOLDERS" "rt folder = Some fs"
       "(name, content) \<in> set fs"
  proof -
    have "malformed_file rt"
      unfolding malformed_file_def using that by force
    then have "\<exists>e. load_workflows rt = Inl e"
      using load_workflows_error_iff [of rt] by blast
    then show ?thesis using load_workflows_IndexError [of rt] by blast
  qed
  have c: "load_workflows
       ((\<lambda>folder. None)
          (''mayowf'' := Some [(''wf_gerd_mayo.txt'', Inl UnicodeDecodeError),
                               (''notes.txt'', Inr ''Rest'')]))
     = Inl UnicodeDecodeError"
    by code_simp
  show ?thesis
    using disease_of_IndexError_iff [of name] b c disease_of_prefix
      load_workflows_error_iff [of rt]
    by blast
qed

theorem malformed_filename_IndexError_witness:
  "disease_of ''notes.txt'' = Inl IndexError
   \<and> ''mayowf'' \<in> set WF_FOLDERS
   \<and> ((\<lambda>folder. None)(''mayowf'' := Some [(''notes.txt'', Inr ''Rest'')])) ''mayowf''
       = Some ([(''notes.txt'', Inr ''Rest'')] :: listing)
   \<and> (''notes.txt'', Inr ''Rest'') \<in> set ([(''notes.txt'', Inr ''Rest'')] :: listing)
   \<and> \<not> unreadable_file ((\<lambda>folder. None)(''mayowf'' := Some [(''notes.txt'', Inr ''Rest'')]))
   \<and> load_workflows ((\<lambda>folder. None)(''mayowf'' := Some [(''notes.txt'', Inr ''Rest'')]))
       = Inl IndexError
   \<and> NL \<notin> set ''gerd'' \<and> CHR ''_'' \<notin> set ''gerd''
   \<and> disease_of (''wf_'' @ ''gerd'' @ CHR ''_'' # ''mayo.txt'') = Inr ''gerd''"
proof -
  let ?fs = "[(''notes.txt'', Inr ''Rest'')] :: listing"
  let ?rt = "(\<lambda>folder. None)(''mayowf'' := Some ?fs) :: root_dir"
  have h1: "disease_of ''notes.txt'' = Inl IndexError" by code_simp
  have h2: "''mayowf'' \<in> set WF_FOLDERS" by (simp add: WF_FOLDERS_def)
  have h3: "?rt ''mayowf'' = Some ?fs" by simp
  have h4: "(''notes.txt'', Inr ''Rest'') \<in> set ?fs" by simp
  have h5: "NL \<notin> set ''gerd'' \<and> CHR ''_'' \<notin> set ''gerd''" by simp
  have h6: "\<not> unreadable_file ?rt" by (auto simp: unreadable_file_def WF_FOLDERS_def)
  note t = malformed_filename_IndexError
             [of "''notes.txt''" "''mayowf''" ?rt ?fs "Inr ''Rest''" "''gerd''" "''mayo.txt''"]
  have c1: "load_workflows ?rt = Inl IndexError" using t h1 h2 h3 h4 h6 by blast
  have c2: "disease_of (''wf_'' @ ''gerd'' @ CHR ''_'' # ''mayo.txt'') = Inr ''gerd''"
    using t h5 by blast
  show ?thesis using h1 h2 h3 h4 h5 h6 c1 c2 by blast
qed

section \<open>Independence of the listing order\<close>

lemma map_of_dict_set:
  "map_of (dict_set k v m) k' = (if k' = k then Some v else map_of m k')"
  by (induction m) auto

lemma dict_set_twice: "dict_set k v (dict_set k v' m) = dict_set k v m"
  by (induction m) auto

lemma keys_dict_set:
  "map fst (dict_set k v m) = (if k \<in> set (map fst m) then map fst m else map fst m @ [k])"
proof (induction m)
  case Nil
  then show ?case by simp
next
  case (Cons a m)
  obtain k' v' where a: "a = (k', v')" by (cases a)
  show ?case
  proof (cases "k = k'")
    case True
    with a show ?thesis by simp
  next
    case False
    with a Cons show ?thesis by simp
  qed
qed

lemma distinct_dict_set: "distinct (map fst m) \<Longrightarrow> distinct (map fst (dict_set k v m))"
  by (simp only: keys_dict_set) simp

lemma map_of_set_entry:
  "map_of (set_entry disease folder body data) d =
     (if d = disease
      then Some (dict_set folder body (case map_of data disease of None \<Rightarrow> [] | Some w \<Rightarrow> w))
      else map_of data d)"
  by (simp add: set_entry_def map_of_dict_set)

lemma distinct_set_entry:
  "distinct (map fst data) \<Longrightarrow> distinct (map fst (set_entry disease folder body data))"
  by (simp add: set_entry_def distinct_dict_set)

lemma load_files_Cons_Inr:
  assumes "load_files folder ((n, c) # fs) data = Inr data'"
  obtains t d0 where "c = Inr t" "disease_of n = Inr d0"
    "load_files folder fs (set_entry d0 folder t data) = Inr data'"
proof -
  from assms obtain t where c: "c = Inr t" by (cases c) auto
  from assms c obtain d0 where d: "disease_of n = Inr d0" by (cases "disease_of n") auto
  from assms c d have "load_files folder fs (set_entry d0 folder t data) = Inr data'" by simp
  with c d that show ?thesis by blast
qed

lemma load_files_map:
  "load_files folder fs data = Inr data' \<Longrightarrow>
   map_of data' d =
     (case last_text fs d of
        None \<Rightarrow> map_of data d
      | Some t \<Rightarrow> Some (dict_set folder t (case map_of data d of None \<Rightarrow> [] | Some w \<Rightarrow> w)))"
proof (induction fs arbitrary: data)
  case Nil
  then show ?case by simp
next
  case (Cons f fs)
  obtain n c where f: "f = (n, c)" by (cases f)
  from Cons.prems f have "load_files folder ((n, c) # fs) data = Inr data'" by simp
  then obtain t d0 where c: "c = Inr t" and d0: "disease_of n = Inr d0"
    and l: "load_files folder fs (set_entry d0 folder t data) = Inr data'"
    by (rule load_files_Cons_Inr)
  from Cons.IH [OF l] show ?case
    using f c d0 by (auto simp: map_of_set_entry dict_set_twice split: option.splits)
qed

lemma load_files_distinct:
  "load_files folder fs data = Inr data' \<Longrightarrow> distinct (map fst data) \<Longrightarrow>
   distinct (map fst data')"
proof (induction fs arbitrary: data)
  case Nil
  then show ?case by simp
next
  case (Cons f fs)
  obtain n c where f: "f = (n, c)" by (cases f)
  from Cons.prems(1) f have "load_files folder ((n, c) # fs) data = Inr data'" by simp
  then obtain t d0 where
    l: "load_files folder fs (set_entry d0 folder t data) = Inr data'"
    by (rule load_files_Cons_Inr)
  show ?case by (rule Cons.IH [OF l]) (rule distinct_set_entry [OF Cons.prems(2)])
qed

lemma last_text_Some:
  "last_text fs d = Some t \<Longrightarrow> \<exists>n. (n, Inr t) \<in> set fs \<and> disease_of n = Inr d"
  by (induction fs) (auto split: option.splits if_splits sum.splits)

lemma last_text_None:
  "last_text fs d = None \<Longrightarrow> (n, Inr t) \<in> set fs \<Longrightarrow> disease_of n \<noteq> Inr d"
  by (induction fs) (auto split: option.splits if_splits sum.splits)

lemma last_text_unique:
  assumes "one_per_disease fs" "(n, Inr t) \<in> set fs" "disease_of n = Inr d"
  shows "last_text fs d = Some t"
proof (cases "last_text fs d")
  case None
  with assms(2,3) last_text_None show ?thesis by blast
next
  case (Some t')
  from last_text_Some [OF this] obtain n' where
    n': "(n', Inr t') \<in> set fs" "disease_of n' = Inr d"
    by blast
  have "(n, Inr t :: error + string) = (n', Inr t')"
    using assms n' unfolding one_per_disease_def by fastforce
  with Some show ?thesis by simp
qed

lemma last_text_same:
  assumes "set fs1 = set fs2" "one_per_disease fs1"
  shows "last_text fs1 d = last_text fs2 d"
proof -
  have u2: "one_per_disease fs2" using assms by (simp add: one_per_disease_def)
  show ?thesis
  proof (cases "last_text fs2 d")
    case None
    show ?thesis
    proof (cases "last_text fs1 d")
      case None
      with \<open>last_text fs2 d = None\<close> show ?thesis by simp
    next
      case (Some t)
      from last_text_Some [OF this] obtain n where
        "(n, Inr t) \<in> set fs2" "disease_of n = Inr d"
        using assms(1) by blast
      with \<open>last_text fs2 d = None\<close> last_text_None show ?thesis by blast
    qed
  next
    case (Some t)
    from last_text_Some [OF this] obtain n where
      "(n, Inr t) \<in> set fs1" "disease_of n = Inr d"
      using assms(1) by blast
    with assms(2) have "last_text fs1 d = Some t" by (rule last_text_unique)
    with Some show ?thesis by simp
  qed
qed

lemma load_folders_same:
  assumes "\<forall>folder \<in> set folders. rel_option (\<lambda>a b. set a = set b) (r1 folder) (r2 folder)"
    and "\<forall>folder \<in> set folders. case r1 folder of None \<Rightarrow> True | Some fs \<Rightarrow> one_per_disease fs"
    and "map_of data1 = map_of data2"
  shows "(\<forall>a. load_folders r1 folders data1 = Inr a \<longrightarrow>
            (\<exists>b. load_folders r2 folders data2 = Inr b \<and> map_of b = map_of a)) \<and>
         ((\<exists>e. load_folders r1 folders data1 = Inl e) \<longrightarrow>
            (\<exists>e. load_folders r2 folders data2 = Inl e))"
  using assms
proof (induction folders arbitrary: data1 data2)
  case Nil
  then show ?case by simp
next
  case (Cons f folders)
  have rel: "rel_option (\<lambda>a b. set a = set b) (r1 f) (r2 f)" using Cons.prems(1) by simp
  have rest1: "\<forall>folder \<in> set folders. rel_option (\<lambda>a b. set a = set b) (r1 folder) (r2 folder)"
    using Cons.prems(1) by simp
  have rest2: "\<forall>folder \<in> set folders.
                 case r1 folder of None \<Rightarrow> True | Some fs \<Rightarrow> one_per_disease fs"
    using Cons.prems(2) by simp
  show ?case
  proof (cases "r1 f")
    case None
    with rel have "r2 f = None" by (cases "r2 f") auto
    with None Cons.IH [OF rest1 rest2 Cons.prems(3)] show ?thesis by simp
  next
    case (Some fs1)
    with rel obtain fs2 where fs2: "r2 f = Some fs2" "set fs1 = set fs2"
      by (cases "r2 f") auto
    have u: "one_per_disease fs1" using Cons.prems(2) Some by simp
    show ?thesis
    proof (cases "load_files f fs1 data1")
      case (Inl e)
      then have "\<exists>g \<in> set fs1. isl (snd g) \<or> disease_of (fst g) = Inl IndexError"
        using load_files_error_iff [of f fs1 data1] by blast
      then have "\<exists>g \<in> set fs2. isl (snd g) \<or> disease_of (fst g) = Inl IndexError"
        using fs2(2) by simp
      then obtain e' where "load_files f fs2 data2 = Inl e'"
        using load_files_error_iff [of f fs2 data2] by blast
      with Inl Some fs2 show ?thesis by simp
    next
      case (Inr a)
      then have "\<not> (\<exists>g \<in> set fs1. isl (snd g) \<or> disease_of (fst g) = Inl IndexError)"
        using load_files_error_iff [of f fs1 data1] by auto
      then have "\<not> (\<exists>g \<in> set fs2. isl (snd g) \<or> disease_of (fst g) = Inl IndexError)"
        using fs2(2) by simp
      then have "\<not> (\<exists>e. load_files f fs2 data2 = Inl e)"
        using load_files_error_iff [of f fs2 data2] by blast
      then obtain b where b: "load_files f fs2 data2 = Inr b"
        by (cases "load_files f fs2 data2") auto
      have "map_of a d = map_of b d" for d
        using load_files_map [OF Inr, of d] load_files_map [OF b, of d]
          last_text_same [OF fs2(2) u, of d] fun_cong [OF Cons.prems(3), of d]
        by (simp split: option.splits)
      then have "map_of a = map_of b" by (rule ext)
      from Cons.IH [OF rest1 rest2 this] Inr b Some fs2 show ?thesis by simp
    qed
  qed
qed

lemma load_folders_distinct:
  "load_folders rt folders data = Inr data' \<Longrightarrow> distinct (map fst data) \<Longrightarrow>
   distinct (map fst data')"
proof (induction folders arbitrary: data)
  case Nil
  then show ?case by simp
next
  case (Cons f folders)
  show ?case
  proof (cases "rt f")
    case None
    with Cons show ?thesis by simp
  next
    case (Some fs)
    with Cons.prems obtain a where a: "load_files f fs data = Inr a"
      by (cases "load_files f fs data") auto
    with Cons.prems Some have l: "load_folders rt folders a = Inr data'" by simp
    show ?thesis
      by (rule Cons.IH [OF l]) (rule load_files_distinct [OF a Cons.prems(2)])
  qed
qed

lemma analyze_items_error_iff:
  "(\<exists>e. analyze_items lib items rep = Inl e) \<longleftrightarrow>
   (\<exists>p \<in> set items. \<not> length (snd p) < 2 \<and> (\<exists>e. disease_report lib (snd p) = Inl e))"
proof (induction items arbitrary: rep)
  case Nil
  then show ?case by simp
next
  case (Cons p items)
  obtain d w where p: "p = (d, w)" by (cases p)
  show ?case
  proof (cases "length w < 2")
    case True
    with p Cons show ?thesis by simp
  next
    case False
    show ?thesis
    proof (cases "disease_report lib w")
      case (Inl e)
      with p False show ?thesis by auto
    next
      case (Inr entry)
      with p False Cons [of "dict_set d entry rep"] show ?thesis by simp
    qed
  qed
qed

lemma analyze_items_map:
  "distinct (map fst items) \<Longrightarrow> analyze_items lib items rep = Inr rep' \<Longrightarrow>
   map_of rep' d =
     (case map_of items d of
        None \<Rightarrow> map_of rep d
      | Some w \<Rightarrow>
          if length w < 2 then map_of rep d
          else (case disease_report lib w of
                  Inl e \<Rightarrow> map_of rep d
                | Inr entry \<Rightarrow> Some entry))"
proof (induction items arbitrary: rep)
  case Nil
  then show ?case by simp
next
  case (Cons p items)
  obtain d0 w0 where p: "p = (d0, w0)" by (cases p)
  have dist: "distinct (map fst items)" and fresh: "map_of items d0 = None"
    using Cons.prems(1) p by (simp_all add: map_of_eq_None_iff)
  show ?case
  proof (cases "length w0 < 2")
    case True
    with Cons.prems(2) p have "analyze_items lib items rep = Inr rep'" by simp
    from Cons.IH [OF dist this] show ?thesis
      using p True fresh by (cases "d = d0") simp_all
  next
    case False
    with Cons.prems(2) p obtain entry where
      e: "disease_report lib w0 = Inr entry" and
      r: "analyze_items lib items (dict_set d0 entry rep) = Inr rep'"
      by (cases "disease_report lib w0") auto
    from Cons.IH [OF dist r] show ?thesis
      using p False fresh e
      by (cases "d = d0") (simp_all add: map_of_dict_set split: option.splits sum.splits)
  qed
qed

lemma analyze_items_distinct:
  "analyze_items lib items rep = Inr rep' \<Longrightarrow> distinct (map fst rep) \<Longrightarrow>
   distinct (map fst rep')"
proof (induction items arbitrary: rep)
  case Nil
  then show ?case by simp
next
  case (Cons p items)
  obtain d0 w0 where p: "p = (d0, w0)" by (cases p)
  show ?case
  proof (cases "length w0 < 2")
    case True
    with Cons p show ?thesis by simp
  next
    case False
    with Cons.prems(1) p obtain entry where
      r: "analyze_items lib items (dict_set d0 entry rep) = Inr rep'"
      by (cases "disease_report lib w0") auto
    show ?thesis
      by (rule Cons.IH [OF r]) (rule distinct_dict_set [OF Cons.prems(2)])
  qed
qed

lemma analyze_items_same:
  assumes "distinct (map fst items1)" "distinct (map fst items2)"
    and "map_of items1 = map_of items2"
  shows "(\<forall>rep1. analyze_items lib items1 [] = Inr rep1 \<longrightarrow>
            (\<exists>rep2. analyze_items lib items2 [] = Inr rep2 \<and> map_of rep2 = map_of rep1 \<and>
                    set rep2 = set rep1)) \<and>
         ((\<exists>e. analyze_items lib items1 [] = Inl e) \<longrightarrow>
            (\<exists>e. analyze_items lib items2 [] = Inl e))"
proof -
  have s: "set items1 = set items2"
    using assms by (simp add: map_of_inject_set)
  have err: "(\<exists>e. analyze_items lib items1 [] = Inl e) \<longleftrightarrow>
             (\<exists>e. analyze_items lib items2 [] = Inl e)"
    by (simp only: analyze_items_error_iff s)
  have ok: "\<exists>rep2. analyze_items lib items2 [] = Inr rep2 \<and> map_of rep2 = map_of rep1 \<and>
                   set rep2 = set rep1"
    if r1: "analyze_items lib items1 [] = Inr rep1" for rep1
  proof -
    from r1 err obtain rep2 where r2: "analyze_items lib items2 [] = Inr rep2"
      by (cases "analyze_items lib items2 []") auto
    have "map_of rep2 d = map_of rep1 d" for d
      using analyze_items_map [OF assms(1) r1, of d] analyze_items_map [OF assms(2) r2, of d]
        assms(3)
      by simp
    then have m: "map_of rep2 = map_of rep1" by (rule ext)
    have "distinct (map fst rep1)" "distinct (map fst rep2)"
      using analyze_items_distinct [OF r1] analyze_items_distinct [OF r2] by simp_all
    then have "set rep2 = set rep1" using m by (simp add: map_of_inject_set)
    with r2 m show ?thesis by blast
  qed
  show ?thesis using ok err by blast
qed

lemma load_folders_cong:
  "\<forall>folder \<in> set folders. r1 folder = r2 folder \<Longrightarrow>
   load_folders r1 folders data = load_folders r2 folders data"
proof (induction folders arbitrary: data)
  case Nil
  then show ?case by simp
next
  case (Cons f folders)
  from Cons.prems have f: "r1 f = r2 f"
    and rest: "\<forall>folder \<in> set folders. r1 folder = r2 folder"
    by simp_all
  show ?case
    using f Cons.IH [OF rest] by (simp split: option.splits sum.splits)
qed

text \<open>
  C9. The libraries are functions, so a run is a function of the directory tree. Of the
  tree it reads the listings of the five source folders and nothing else: two trees
  that agree on them, as an unchanged directory does with itself, give identical
  results, report or error. More holds under the input contract, one file for a
  disease in each source folder: the order in which \<open>glob\<close> lists the files does not
  matter either. For two listings of the same files the two runs give the same report,
  that is the same entry (ordered site list, similarity matrix, distinctive terms) for
  every disease, and a run that fails fails for both listings.
\<close>

theorem report_independent_of_listing_order:
  "((\<forall>folder \<in> set WF_FOLDERS. r1 folder = r2 folder) \<longrightarrow> analyze lib r1 = analyze lib r2)
   \<and> (same_files r1 r2 \<and> one_file_per_disease r1 \<longrightarrow>
        (\<forall>rep1. analyze lib r1 = Inr rep1 \<longrightarrow>
           (\<exists>rep2. analyze lib r2 = Inr rep2 \<and> map_of rep2 = map_of rep1 \<and>
                   set rep2 = set rep1))
        \<and> ((\<exists>e. analyze lib r1 = Inl e) \<longrightarrow> (\<exists>e. analyze lib r2 = Inl e)))"
proof (intro conjI impI)
  assume "\<forall>folder \<in> set WF_FOLDERS. r1 folder = r2 folder"
  then have "load_workflows r1 = load_workflows r2"
    unfolding load_workflows_def by (rule load_folders_cong)
  then show "analyze lib r1 = analyze lib r2" by (simp add: analyze_def)
next
  assume h: "same_files r1 r2 \<and> one_file_per_disease r1"
  have rel: "\<forall>folder \<in> set WF_FOLDERS.
               rel_option (\<lambda>a b. set a = set b) (r1 folder) (r2 folder)"
    using h by (simp add: same_files_def)
  have u: "\<forall>folder \<in> set WF_FOLDERS.
             case r1 folder of None \<Rightarrow> True | Some fs \<Rightarrow> one_per_disease fs"
    using h by (simp add: one_file_per_disease_def)
  note ld = load_folders_same [OF rel u refl, of "[]"]
  have both: "(\<forall>rep1. analyze lib r1 = Inr rep1 \<longrightarrow>
          (\<exists>rep2. analyze lib r2 = Inr rep2 \<and> map_of rep2 = map_of rep1 \<and>
                  set rep2 = set rep1))
        \<and> ((\<exists>e. analyze lib r1 = Inl e) \<longrightarrow> (\<exists>e. analyze lib r2 = Inl e))"
  proof (cases "load_workflows r1")
    case (Inl e)
    with ld obtain e' where "load_workflows r2 = Inl e'"
      by (auto simp: load_workflows_def)
    with Inl show ?thesis by (simp add: analyze_def)
  next
    case (Inr a)
    with ld obtain b where b: "load_workflows r2 = Inr b" "map_of b = map_of a"
      by (auto simp: load_workflows_def)
    have da: "distinct (map fst a)"
      using Inr load_folders_distinct [of r1 WF_FOLDERS "[]" a] by (simp add: load_workflows_def)
    have db: "distinct (map fst b)"
      using b load_folders_distinct [of r2 WF_FOLDERS "[]" b] by (simp add: load_workflows_def)
    from analyze_items_same [OF da db b(2) [symmetric], of lib] Inr b(1)
    show ?thesis by (simp add: analyze_def)
  qed
  from both show "\<forall>rep1. analyze lib r1 = Inr rep1 \<longrightarrow>
          (\<exists>rep2. analyze lib r2 = Inr rep2 \<and> map_of rep2 = map_of rep1 \<and>
                  set rep2 = set rep1)"
    by (rule conjunct1)
  from both show "(\<exists>e. analyze lib r1 = Inl e) \<Longrightarrow> \<exists>e. analyze lib r2 = Inl e"
    by blast
qed

theorem report_independent_of_listing_order_witness:
  "same_files
     (example_dir [(''wf_gerd_mayo.txt'', ''1. Surgery''), (''wf_pcos_mayo.txt'', ''1. Diet'')]
                  [(''wf_gerd_wiki.txt'', ''1. Diet''), (''wf_pcos_wiki.txt'', ''1. Diet'')])
     (example_dir [(''wf_pcos_mayo.txt'', ''1. Diet''), (''wf_gerd_mayo.txt'', ''1. Surgery'')]
                  [(''wf_gerd_wiki.txt'', ''1. Diet''), (''wf_pcos_wiki.txt'', ''1. Diet'')])
   \<and> one_file_per_disease
       (example_dir [(''wf_gerd_mayo.txt'', ''1. Surgery''), (''wf_pcos_mayo.txt'', ''1. Diet'')]
                    [(''wf_gerd_wiki.txt'', ''1. Diet''), (''wf_pcos_wiki.txt'', ''1. Diet'')])
   \<and> analyze example_libraries
       (example_dir [(''wf_gerd_mayo.txt'', ''1. Surgery''), (''wf_pcos_mayo.txt'', ''1. Diet'')]
                    [(''wf_gerd_wiki.txt'', ''1. Diet''), (''wf_pcos_wiki.txt'', ''1. Diet'')])
     = Inr [(''gerd'', \<lparr>sites = [''mayowf'', ''wikiwf''],
                         similarity_matrix = [[1, 0], [0, 1]],
                         unique_terms = [(''mayowf'', [''surgery'', ''diet'']),
                                         (''wikiwf'', [''diet'', ''surgery''])]\<rparr>),
            (''pcos'', \<lparr>sites = [''mayowf'', ''wikiwf''],
                         similarity_matrix = [[1, 1], [1, 1]],
                         unique_terms = [(''mayowf'', [''diet'']), (''wikiwf'', [''diet''])]\<rparr>)]
   \<and> analyze example_libraries
       ((example_dir [(''wf_gerd_mayo.txt'', ''1. Surgery''), (''wf_pcos_mayo.txt'', ''1. Diet'')]
                     [(''wf_gerd_wiki.txt'', ''1. Diet''), (''wf_pcos_wiki.txt'', ''1. Diet'')])
          (''notes'' := Some [(''todo.txt'', Inr ''Call'')]))
     = analyze example_libraries
         (example_dir [(''wf_gerd_mayo.txt'', ''1. Surgery''), (''wf_pcos_mayo.txt'', ''1. Diet'')]
                      [(''wf_gerd_wiki.txt'', ''1. Diet''), (''wf_pcos_wiki.txt'', ''1. Diet'')])
   \<and> (\<exists>rep2.
         analyze example_libraries
           (example_dir [(''wf_pcos_mayo.txt'', ''1. Diet''), (''wf_gerd_mayo.txt'', ''1. Surgery'')]
                        [(''wf_gerd_wiki.txt'', ''1. Diet''), (''wf_pcos_wiki.txt'', ''1. Diet'')])
         = Inr rep2 \<and>
         set rep2 =
           set [(''gerd'', \<lparr>sites = [''mayowf'', ''wikiwf''],
                              similarity_matrix = [[1, 0], [0, 1]],
                              unique_terms = [(''mayowf'', [''surgery'', ''diet'']),
                                              (''wikiwf'', [''diet'', ''surgery''])]\<rparr>),
                (''pcos'', \<lparr>sites = [''mayowf'', ''wikiwf''],
                              similarity_matrix = [[1, 1], [1, 1]],
                              unique_terms = [(''mayowf'', [''diet'']),
                                              (''wikiwf'', [''diet''])]\<rparr>)])"
proof -
  let ?d1 = "example_dir [(''wf_gerd_mayo.txt'', ''1. Surgery''), (''wf_pcos_mayo.txt'', ''1. Diet'')]
                  [(''wf_gerd_wiki.txt'', ''1. Diet''), (''wf_pcos_wiki.txt'', ''1. Diet'')]"
  let ?d2 = "example_dir [(''wf_pcos_mayo.txt'', ''1. Diet''), (''wf_gerd_mayo.txt'', ''1. Surgery'')]
                  [(''wf_gerd_wiki.txt'', ''1. Diet''), (''wf_pcos_wiki.txt'', ''1. Diet'')]"
  let ?rep = "[(''gerd'', \<lparr>sites = [''mayowf'', ''wikiwf''],
                         similarity_matrix = [[1, 0], [0, 1]],
                         unique_terms = [(''mayowf'', [''surgery'', ''diet'']),
                                         (''wikiwf'', [''diet'', ''surgery''])]\<rparr>),
            (''pcos'', \<lparr>sites = [''mayowf'', ''wikiwf''],
                         similarity_matrix = [[1, 1], [1, 1 :: real]],
                         unique_terms = [(''mayowf'', [''diet'']), (''wikiwf'', [''diet''])]\<rparr>)]"
  have p: "preprocess ''1. Diet'' = ''  diet''" "preprocess ''1. Surgery'' = ''  surgery''"
    by code_simp+
  have l1: "load_workflows ?d1
     = Inr [(''gerd'', [(''mayowf'', ''1. Surgery''), (''wikiwf'', ''1. Diet'')]),
            (''pcos'', [(''mayowf'', ''1. Diet''), (''wikiwf'', ''1. Diet'')])]"
    by code_simp
  have s: "same_files ?d1 ?d2"
    by (auto simp: same_files_def example_dir_def readable_def WF_FOLDERS_def)
  have ds: "disease_of ''wf_gerd_mayo.txt'' = Inr ''gerd''"
           "disease_of ''wf_pcos_mayo.txt'' = Inr ''pcos''"
           "disease_of ''wf_gerd_wiki.txt'' = Inr ''gerd''"
           "disease_of ''wf_pcos_wiki.txt'' = Inr ''pcos''"
    by code_simp+
  have u: "one_file_per_disease ?d1"
    by (simp add: one_file_per_disease_def one_per_disease_def example_dir_def readable_def
          WF_FOLDERS_def ds)
  have a1: "analyze example_libraries ?d1 = Inr ?rep"
    by (simp add: analyze_def l1 disease_report_def compute_similarity_def
          find_unique_terms_def p example_libraries_def example_vectorizer_def
          example_similarity_def top_idxs_def last_n_def insertion_argsort_def upt_rec
          enumerate_eq_zip)
  note t = report_independent_of_listing_order [of ?d1 ?d2 example_libraries]
  have c: "\<exists>rep2. analyze example_libraries ?d2 = Inr rep2 \<and> set rep2 = set ?rep"
    using t s u a1 by blast
  let ?d3 = "?d1(''notes'' := Some [(''todo.txt'', Inr ''Call'')])"
  have g: "\<forall>folder \<in> set WF_FOLDERS. ?d3 folder = ?d1 folder"
    by (simp add: WF_FOLDERS_def)
  have d: "analyze example_libraries ?d3 = analyze example_libraries ?d1"
    using report_independent_of_listing_order [of ?d3 ?d1 example_libraries] g by blast
  show ?thesis using s u a1 c d by blast
qed

end
